theory Spec2Isabelle
  imports Main
begin

section \<open>Nodes, steps and step hashes (packages node and step)\<close>

text \<open>
  \<^verbatim>\<open>node.Type\<close> is an integer enumeration with the three values below; \<^verbatim>\<open>Type.String\<close>
  prints every value other than \<^verbatim>\<open>Start\<close> as "outcome".
\<close>

datatype NodeType = Unknown | Start | Outcome

fun NodeType_String :: "NodeType \<Rightarrow> string" where
  "NodeType_String Start = ''start''"
| "NodeType_String t = ''outcome''"

text \<open>\<^verbatim>\<open>node.Node\<close>. Go's \<^verbatim>\<open>int\<close> priority is only ever compared, so it is an \<open>int\<close> here.\<close>

record Node =
  Type :: NodeType
  ID :: string
  Name :: string
  Priority :: int

definition zero_Node :: Node where
  "zero_Node = \<lparr>Type = Unknown, ID = [], Name = [], Priority = 0\<rparr>"

text \<open>
  A YAML syntax node (\<^verbatim>\<open>ast.Node\<close>) is used by the code under study only as a source
  location (\<^verbatim>\<open>GetPath\<close>) and as the argument of \<^verbatim>\<open>yaml.NodeToValue\<close> into a Go string.
  \<open>scalar\<close> is the string that decoding yields, \<open>None\<close> when decoding fails. The Go
  interface value may be nil: fields of that type are \<open>ast_Node option\<close>.
\<close>

datatype ast_Node = YamlNode (GetPath: string) (scalar: "string option")

section \<open>Errors (package noderr)\<close>

text \<open>
  Go error values as far as the repository builds them: the result of \<^verbatim>\<open>errors.New\<close> and
  \<^verbatim>\<open>fmt.Errorf\<close> (no \<^verbatim>\<open>%w\<close> verb is used anywhere), the wrappers of
  \<^verbatim>\<open>github.com/pkg/errors\<close> (which have an \<^verbatim>\<open>Unwrap\<close> method), the struct value
  \<^verbatim>\<open>noderr.NodeError{Node, Err}\<close> (methods \<^verbatim>\<open>Error\<close> and \<^verbatim>\<open>PrettyPrint\<close> only: neither
  \<^verbatim>\<open>Unwrap\<close> nor \<^verbatim>\<open>Is\<close>), and a pointer to a \<^verbatim>\<open>NodeError\<close> variable, known by its
  address.
\<close>

datatype goerror =
    ErrorString string
  | WithMessage goerror string
  | NodeError "ast_Node option" goerror
  | NodeErrorPtr nat

fun Error :: "goerror \<Rightarrow> string" where
  "Error (ErrorString s) = s"
| "Error (WithMessage cause msg) = msg @ '': '' @ Error cause"
| "Error (NodeError n err) = Error err"
| "Error (NodeErrorPtr a) = []"

text \<open>The addresses of the pointers that occur in an error value.\<close>

fun addresses :: "goerror \<Rightarrow> nat list" where
  "addresses (ErrorString s) = []"
| "addresses (WithMessage cause msg) = addresses cause"
| "addresses (NodeError n err) = addresses err"
| "addresses (NodeErrorPtr a) = [a]"

text \<open>
  \<^verbatim>\<open>errors.Is(err, target)\<close> of the Go standard library: walk the \<^verbatim>\<open>Unwrap\<close> chain of
  \<open>err\<close> and compare each link with \<open>target\<close> by \<^verbatim>\<open>==\<close> (no error type of the repository
  has an \<^verbatim>\<open>Is\<close> method). Only the \<open>WithMessage\<close> wrappers can be unwrapped.
\<close>

fun errors_Is :: "goerror \<Rightarrow> goerror \<Rightarrow> bool" where
  "errors_Is (WithMessage cause msg) target =
     (WithMessage cause msg = target \<or> errors_Is cause target)"
| "errors_Is err target = (err = target)"

text \<open>
  \<^verbatim>\<open>errors.As(err, &ne)\<close> with \<^verbatim>\<open>ne\<close> of type \<^verbatim>\<open>NodeError\<close>, as the command line and the
  tests read the location of a failure: the first \<^verbatim>\<open>NodeError\<close> value of the chain.
\<close>

fun errors_As_NodeError :: "goerror \<Rightarrow> (ast_Node option \<times> goerror) option" where
  "errors_As_NodeError (NodeError n err) = Some (n, err)"
| "errors_As_NodeError (WithMessage cause msg) = errors_As_NodeError cause"
| "errors_As_NodeError err = None"

text \<open>
  \<^verbatim>\<open>noderr.Wrap\<close>. The local variable \<^verbatim>\<open>ne\<close> is freshly allocated by every call, so the
  target \<^verbatim>\<open>&ne\<close> is a pointer whose address occurs nowhere in \<open>err\<close>.
\<close>

definition new_address :: "goerror \<Rightarrow> nat" where
  "new_address err = Suc (fold max (addresses err) 0)"

definition Wrap :: "goerror \<Rightarrow> ast_Node option \<Rightarrow> goerror" where
  "Wrap err node =
     (let ne = NodeErrorPtr (new_address err)
      in if errors_Is err ne then err else NodeError node err)"

lemma fold_max_ge: "a \<in> set xs \<Longrightarrow> a \<le> fold max xs (m::nat)"
proof (induction xs arbitrary: m)
  case Nil
  then show ?case by simp
next
  case (Cons x xs)
  have mono: "\<And>ys k. (k::nat) \<le> fold max ys k"
  proof -
    fix ys :: "nat list" and k
    show "k \<le> fold max ys k"
      by (induction ys arbitrary: k) (auto intro: order_trans [OF max.cobounded2])
  qed
  from Cons show ?case
  proof (cases "a = x")
    case True
    have "x \<le> max x m" by simp
    also have "\<dots> \<le> fold max xs (max x m)" by (rule mono)
    finally show ?thesis using True by simp
  next
    case False
    with Cons show ?thesis by simp
  qed
qed

lemma new_address_fresh: "new_address err \<notin> set (addresses err)"
proof
  assume "new_address err \<in> set (addresses err)"
  then have "new_address err \<le> fold max (addresses err) 0" by (rule fold_max_ge)
  then show False by (simp add: new_address_def)
qed

lemma errors_Is_pointer: "errors_Is err (NodeErrorPtr a) \<Longrightarrow> a \<in> set (addresses err)"
  by (induction err) auto

lemma Wrap_wraps: "Wrap err node = NodeError node err"
  using errors_Is_pointer [of err "new_address err"] new_address_fresh [of err]
  by (auto simp: Wrap_def Let_def)


section \<open>Steps\<close>

text \<open>
  \<^verbatim>\<open>step.Operation\<close> and the four bodies of a step. \<^verbatim>\<open>Body\<close> is a Go interface, so a
  step that was created but not yet parsed has the nil body, \<open>NilBody\<close>. The payload of an
  action is an untyped Go value; the executor only asks whether it implements
  \<^verbatim>\<open>Completer\<close>, so the payload is modelled by its \<^verbatim>\<open>Complete\<close> method, \<open>None\<close> when it
  has none. \<open>'i\<close> is the type of the workflow input.
\<close>

datatype Operation = And | Or

datatype 'i Body =
    NilBody
  | Check (Expression: string)
  | Boolean (Op: Operation)
  | Ref (RefNode: Node)
  | Action (ActionName: string) (Completer: "('i \<Rightarrow> goerror + bool) option")

text \<open>
  \<^verbatim>\<open>step.Step\<close>. The fields \<^verbatim>\<open>Name\<close> and \<^verbatim>\<open>Node\<close> are the selectors \<open>StepName\<close> and
  \<open>AstNode\<close> (the record \<open>Node\<close> owns the other names). \<^verbatim>\<open>Position\<close> is a Go slice; it is
  modelled as the list of its elements.
\<close>

datatype 'i Step =
  Step (Position: "int list") (StepName: string) (Body: "'i Body")
       (Children: "'i Step list") (AstNode: "ast_Node option") (Pass: string)

text \<open>\<^verbatim>\<open>strconv.Itoa\<close> and \<^verbatim>\<open>strings.Join\<close>.\<close>

definition digit :: "nat \<Rightarrow> char" where
  "digit d = ''0123456789'' ! d"

fun digits :: "nat \<Rightarrow> string" where
  "digits n = (if n < 10 then [digit n] else digits (n div 10) @ [digit (n mod 10)])"

declare digits.simps [simp del]

definition Itoa :: "int \<Rightarrow> string" where
  "Itoa i = (if i < 0 then CHR ''-'' # digits (nat (- i)) else digits (nat i))"

fun Join :: "string list \<Rightarrow> string \<Rightarrow> string" where
  "Join [] sep = []"
| "Join [x] sep = x"
| "Join (x # y # ys) sep = x @ sep @ Join (y # ys) sep"

text \<open>\<^verbatim>\<open>step.Hash\<close>: the key of a step in the graph.\<close>

definition Hash :: "'i Step \<Rightarrow> string" where
  "Hash s =
     (case Body s of
        Ref n \<Rightarrow> ID n
      | _ \<Rightarrow> Pass s @ ''.'' @ Join (map Itoa (Position s)) ''.'')"

section \<open>Parsing a node reference (step.parseNodeRef)\<close>

text \<open>
  Of \<^verbatim>\<open>dialect.Dialect\<close> the parser of a \<^verbatim>\<open>start:\<close> or \<^verbatim>\<open>outcome:\<close> step reads the node map
  only.
\<close>

record Dialect =
  Nodes :: "string \<rightharpoonup> Node"

definition NodeToValue :: "ast_Node \<Rightarrow> goerror + string" where
  "NodeToValue body =
     (case scalar body of
        None \<Rightarrow> Inl (ErrorString ''cannot unmarshal into Go value of type string'')
      | Some expr \<Rightarrow> Inr expr)"

text \<open>
  The method mutates its receiver \<open>e\<close> (fields \<^verbatim>\<open>Name\<close> and \<^verbatim>\<open>Body\<close>) and returns an error;
  the model returns the error or the updated step. The comparison in the dialect branch
  is between the type of the node that was just built from \<open>nodeType\<close> and \<open>nodeType\<close>
  itself, as the source has it.
\<close>

definition parseNodeRef ::
  "'i Step \<Rightarrow> ast_Node \<Rightarrow> Dialect \<Rightarrow> NodeType \<Rightarrow> goerror + 'i Step" where
  "parseNodeRef e body d nodeType =
     (case NodeToValue body of
        Inl err \<Rightarrow> Inl err
      | Inr expr \<Rightarrow>
          let n = \<lparr>Type = nodeType, ID = expr, Name = [], Priority = 0\<rparr>
          in (case Nodes d expr of
                Some def \<Rightarrow>
                  if Type n \<noteq> nodeType
                  then Inl (ErrorString (expr @ '' can only be used as a ''
                              @ NodeType_String nodeType @ '' step''))
                  else Inr (Step (Position e) (Name def) (Ref (def\<lparr>ID := expr\<rparr>))
                              (Children e) (AstNode e) (Pass e))
              | None \<Rightarrow>
                  Inr (Step (Position e) (StepName e) (Ref n)
                         (Children e) (AstNode e) (Pass e))))"


section \<open>The schema type provider (package jsoncel)\<close>

text \<open>
  Modelled from the spec: the declaration of \<^verbatim>\<open>jsoncel.Schema\<close> and of its \<^verbatim>\<open>Type\<close> constants
  is not among the sources. The spec gives a schema node a type among null, boolean,
  object, array, number, integer and string, a map of properties, and an optional
  \<^verbatim>\<open>additionalProperties\<close> that is false or true (\<^verbatim>\<open>TrueSchema\<close>). \<open>JOther\<close> stands for an
  absent or unknown type, which no case of the switch in \<^verbatim>\<open>FindType\<close> matches. The
  constants carry the prefix \<open>J\<close> since \<open>Boolean\<close> is a step body. A Go map is iterated in
  no fixed order: the properties are an association list, iterated in list order.
\<close>

datatype SchemaType =
  JNull | JBoolean | JObject | JArray | JNumber | JString | JInteger | JOther string

datatype AdditionalProperties = Unset | FalseSchema | TrueSchema

datatype Schema =
  Schema (SType: SchemaType) (Properties: "(string \<times> Schema) list")
         (AdditionalProps: AdditionalProperties)

text \<open>The types of the expression language that \<^verbatim>\<open>FindType\<close> builds with package \<^verbatim>\<open>decls\<close>.\<close>

datatype exprpb_Type =
    decls_Null | decls_Bool | decls_Any | decls_NewObjectType string
  | decls_NewListType exprpb_Type | decls_Double | decls_String | decls_Int

text \<open>
  \<^verbatim>\<open>Provider\<close>. The fallback \<^verbatim>\<open>protos\<close> is the registry of the expression library; only its
  \<^verbatim>\<open>FindType\<close> is needed here, and it is a parameter.
\<close>

record Provider =
  protos :: "string \<Rightarrow> exprpb_Type option"
  schema :: Schema
  typeName :: string
  typeMap :: "string \<rightharpoonup> Schema"

text \<open>\<^verbatim>\<open>mapSchema\<close>, with the loop over the properties as \<open>mapProperties\<close>.\<close>

fun mapSchema :: "string \<Rightarrow> Schema \<Rightarrow> (string \<rightharpoonup> Schema) \<Rightarrow> (string \<rightharpoonup> Schema)"
and mapProperties ::
  "string \<Rightarrow> (string \<times> Schema) list \<Rightarrow> (string \<rightharpoonup> Schema) \<Rightarrow> (string \<rightharpoonup> Schema)"
where
  "mapSchema key (Schema t props ap) m =
     mapProperties key props (m(key \<mapsto> Schema t props ap))"
| "mapProperties key [] m = m"
| "mapProperties key ((childKey, child) # rest) m =
     mapProperties key rest (mapSchema (key @ ''.'' @ childKey) child m)"

definition NewProvider ::
  "(string \<Rightarrow> exprpb_Type option) \<Rightarrow> string \<Rightarrow> Schema option \<Rightarrow> Provider" where
  "NewProvider registry tn s =
     \<lparr>protos = registry,
      schema = (case s of None \<Rightarrow> Schema (JOther []) [] Unset | Some x \<Rightarrow> x),
      typeName = tn,
      typeMap = mapSchema tn (case s of None \<Rightarrow> Schema (JOther []) [] Unset | Some x \<Rightarrow> x)
                  Map.empty\<rparr>"

definition FindType :: "Provider \<Rightarrow> string \<Rightarrow> exprpb_Type option" where
  "FindType p tn =
     (case typeMap p tn of
        Some f \<Rightarrow>
          (case SType f of
             JNull \<Rightarrow> Some decls_Null
           | JBoolean \<Rightarrow> Some decls_Bool
           | JObject \<Rightarrow>
               if AdditionalProps f = TrueSchema then Some decls_Any
               else Some (decls_NewObjectType tn)
           | JArray \<Rightarrow> Some (decls_NewListType decls_String)
           | JNumber \<Rightarrow> Some decls_Double
           | JString \<Rightarrow> Some decls_String
           | JInteger \<Rightarrow> Some decls_Int
           | JOther t \<Rightarrow> protos p tn)
      | None \<Rightarrow> protos p tn)"

text \<open>The schema of the provider's test, with a free-form \<^verbatim>\<open>tags\<close> object added.\<close>

definition test_schema :: Schema where
  "test_schema = Schema JObject
     [(''name'', Schema JString [] Unset),
      (''group'', Schema JObject [(''id'', Schema JString [] Unset)] Unset),
      (''tags'', Schema JObject [] TrueSchema)] Unset"

section \<open>The graph library\<close>

text \<open>
  The compiler and the executor keep their graph in \<^verbatim>\<open>graph.Graph[string, step.Step]\<close> of the
  library \<^verbatim>\<open>github.com/dominikbraun/graph\<close> (directed, with \<^verbatim>\<open>PreventCycles\<close>). The library
  is not part of the repository; its operations are modelled as it documents them. The
  store maps a hash to its vertex and keeps at most one edge per pair of hashes; here the
  vertices are the list of the stored steps, found by \<open>Hash\<close>, and the edges a list of
  pairs. \<^verbatim>\<open>AdjacencyMap\<close> and \<^verbatim>\<open>PredecessorMap\<close> are Go maps keyed by the neighbour, so a
  neighbour counts once; the order of the lists stands for the order in which Go happens to
  iterate over the map.
\<close>


record 'i graph_Graph =
  vertices :: "'i Step list"
  edges :: "(string \<times> string) list"

definition graph_New :: "'i graph_Graph" where
  "graph_New = \<lparr>vertices = [], edges = []\<rparr>"

definition ErrVertexNotFound :: goerror where
  "ErrVertexNotFound = ErrorString ''vertex not found''"

definition ErrVertexAlreadyExists :: goerror where
  "ErrVertexAlreadyExists = ErrorString ''vertex already exists''"

definition ErrEdgeAlreadyExists :: goerror where
  "ErrEdgeAlreadyExists = ErrorString ''edge already exists''"

definition ErrEdgeCreatesCycle :: goerror where
  "ErrEdgeCreatesCycle = ErrorString ''edge would create a cycle''"

definition Vertex :: "'i graph_Graph \<Rightarrow> string \<Rightarrow> 'i Step option" where
  "Vertex g k = find (\<lambda>s. Hash s = k) (vertices g)"

definition AdjacencyMap :: "'i graph_Graph \<Rightarrow> string \<Rightarrow> string list" where
  "AdjacencyMap g k = remdups (map snd (filter (\<lambda>e. fst e = k) (edges g)))"

definition PredecessorMap :: "'i graph_Graph \<Rightarrow> string \<Rightarrow> string list" where
  "PredecessorMap g k = remdups (map fst (filter (\<lambda>e. snd e = k) (edges g)))"

text \<open>
  \<^verbatim>\<open>graph.BFS\<close>: a queue and a set of visited hashes, both started with \<open>start\<close>. The head of
  the queue is visited; when the callback returns true the traversal stops, otherwise every
  adjacent hash that is not yet marked is marked and appended to the queue (\<open>enqueue\<close>).
  The callback's captured variables are the state \<open>s\<close>, which it returns updated.
\<close>

fun enqueue :: "string list \<Rightarrow> string list \<Rightarrow> string list \<Rightarrow> string list \<times> string list" where
  "enqueue [] visited queue = (visited, queue)"
| "enqueue (adjacency # rest) visited queue =
     (if adjacency \<in> set visited then enqueue rest visited queue
      else enqueue rest (adjacency # visited) (queue @ [adjacency]))"

lemma enqueue_measure:
  "finite U \<Longrightarrow> set as \<subseteq> U \<Longrightarrow>
   card (U - set (fst (enqueue as visited queue))) + length (snd (enqueue as visited queue))
     = card (U - set visited) + length queue"
proof (induction as arbitrary: visited queue)
  case Nil
  then show ?case by simp
next
  case (Cons a as)
  show ?case
  proof (cases "a \<in> set visited")
    case True
    with Cons show ?thesis by simp
  next
    case False
    from Cons.prems have aU: "a \<in> U - set visited" using False by simp
    have "U - set (a # visited) = (U - set visited) - {a}" by auto
    then have "card (U - set (a # visited)) = card (U - set visited) - 1"
      using aU Cons.prems(1) by (simp add: card_Diff_singleton)
    moreover have "card (U - set visited) > 0"
      using aU Cons.prems(1) by (metis card_gt_0_iff empty_iff finite_Diff)
    ultimately show ?thesis
      using Cons.IH [of "a # visited" "queue @ [a]"] Cons.prems False by simp
  qed
qed

function BFS_loop ::
  "'i graph_Graph \<Rightarrow> (string \<Rightarrow> 's \<Rightarrow> bool \<times> 's) \<Rightarrow> string list \<Rightarrow> string list \<Rightarrow> 's \<Rightarrow> 's" where
  "BFS_loop g visit [] visited s = s"
| "BFS_loop g visit (currentHash # queue) visited s =
     (if fst (visit currentHash s) then snd (visit currentHash s)
      else BFS_loop g visit
             (snd (enqueue (AdjacencyMap g currentHash) visited queue))
             (fst (enqueue (AdjacencyMap g currentHash) visited queue))
             (snd (visit currentHash s)))"
  by pat_completeness auto
termination
proof (relation "measure (\<lambda>(g, visit, queue, visited, s).
          card (set (map snd (edges g)) - set visited) + length queue)")
  show "wf (measure (\<lambda>(g, visit, queue, visited, s).
          card (set (map snd (edges g)) - set visited) + length queue))" by simp
next
  fix g :: "'i graph_Graph" and visit :: "string \<Rightarrow> 's \<Rightarrow> bool \<times> 's"
    and currentHash queue visited and s :: 's
  have "set (AdjacencyMap g currentHash) \<subseteq> set (map snd (edges g))"
    by (auto simp: AdjacencyMap_def)
  from enqueue_measure [OF _ this, of visited queue]
  show "((g, visit, snd (enqueue (AdjacencyMap g currentHash) visited queue),
          fst (enqueue (AdjacencyMap g currentHash) visited queue), snd (visit currentHash s)),
         (g, visit, currentHash # queue, visited, s))
        \<in> measure (\<lambda>(g, visit, queue, visited, s).
          card (set (map snd (edges g)) - set visited) + length queue)"
    by simp
qed

definition BFS :: "'i graph_Graph \<Rightarrow> string \<Rightarrow> (string \<Rightarrow> 's \<Rightarrow> bool \<times> 's) \<Rightarrow> 's \<Rightarrow> 's" where
  "BFS g start visit s =
     (if Vertex g start = None then s else BFS_loop g visit [start] [start] s)"

text \<open>
  \<^verbatim>\<open>graph.CreatesCycle\<close> answers whether \<open>target\<close> is \<open>source\<close> or one of its ancestors: whether
  \<open>source\<close> is found by a traversal from \<open>target\<close>. \<^verbatim>\<open>AddVertex\<close> and \<^verbatim>\<open>AddEdge\<close> return an
  error and leave the graph as it is, or return the graph extended.
\<close>

definition CreatesCycle :: "'i graph_Graph \<Rightarrow> string \<Rightarrow> string \<Rightarrow> bool" where
  "CreatesCycle g source target =
     (source = target \<or>
      source \<in> set (BFS_loop g (\<lambda>k ks. (False, ks @ [k])) [target] [target] []))"

definition AddVertex :: "'i graph_Graph \<Rightarrow> 'i Step \<Rightarrow> goerror + 'i graph_Graph" where
  "AddVertex g v =
     (if Vertex g (Hash v) \<noteq> None then Inl ErrVertexAlreadyExists
      else Inr (g\<lparr>vertices := vertices g @ [v]\<rparr>))"

definition AddEdge :: "'i graph_Graph \<Rightarrow> string \<Rightarrow> string \<Rightarrow> goerror + 'i graph_Graph" where
  "AddEdge g sourceHash targetHash =
     (if Vertex g sourceHash = None then Inl ErrVertexNotFound
      else if Vertex g targetHash = None then Inl ErrVertexNotFound
      else if (sourceHash, targetHash) \<in> set (edges g) then Inl ErrEdgeAlreadyExists
      else if CreatesCycle g sourceHash targetHash then Inl ErrEdgeCreatesCycle
      else Inr (g\<lparr>edges := edges g @ [(sourceHash, targetHash)]\<rparr>))"


section \<open>The compiler (compile.go)\<close>

text \<open>
  The expression library (cel-go) is outside the repository. A compiled expression is
  modelled by what \<^verbatim>\<open>Eval\<close> makes of the input: an error, a boolean or a value of another
  type. (The executor flattens the input map before it evaluates; the flattening is part
  of that function here.) The environment is modelled by what \<^verbatim>\<open>Env.Compile\<close> and
  \<^verbatim>\<open>Env.Program\<close> make of an expression text: an error of the type check, or the output
  type together with the program or the error of its construction.
\<close>


datatype celval = CelBool bool | CelOther

type_synonym 'i cel_Program = "'i \<Rightarrow> goerror + celval"

type_synonym 'i cel_Env = "string \<Rightarrow> goerror + (exprpb_Type \<times> (goerror + 'i cel_Program))"

text \<open>\<^verbatim>\<open>glide.Graph\<close>: the library graph and the table of compiled expressions.\<close>

record 'i Graph =
  G :: "'i graph_Graph"
  programs :: "string \<rightharpoonup> 'i cel_Program"

definition NewGraph :: "'i Graph" where
  "NewGraph = \<lparr>G = graph_New, programs = Map.empty\<rparr>"

text \<open>
  \<^verbatim>\<open>Body.String\<close>, used in error messages and vertex labels only. A check prints its
  expression with every double quote escaped by a backslash; an action whose payload is a
  \<^verbatim>\<open>Stringer\<close> would print the payload, and the model has the other branch.
\<close>

definition escape_quotes :: "string \<Rightarrow> string" where
  "escape_quotes s = concat (map (\<lambda>c. if c = CHR 0x22 then [CHR 0x5C, CHR 0x22] else [c]) s)"

definition String :: "'i Body \<Rightarrow> string" where
  "String b =
     (case b of
        NilBody \<Rightarrow> []
      | Check expr \<Rightarrow> ''if: '' @ escape_quotes expr
      | Boolean op \<Rightarrow> (if op = And then ''AND'' else ''OR'')
      | Ref n \<Rightarrow> NodeType_String (Type n) @ '': '' @ ID n
      | Action nm c \<Rightarrow> ''action: '' @ nm)"

definition assertNode :: "'i Step \<Rightarrow> NodeType \<Rightarrow> goerror option" where
  "assertNode s wantType =
     (case Body s of
        Ref n \<Rightarrow>
          if Type n \<noteq> wantType
          then Some (ErrorString (''statement '' @ String (Body s)
                 @ '' must be a reference to a '' @ NodeType_String wantType @ '' node''))
          else None
      | _ \<Rightarrow> Some (ErrorString (''statement '' @ String (Body s)
                 @ '' must be a reference to a '' @ NodeType_String wantType
                 @ '' node, but wasn't a reference'')))"

text \<open>
  \<^verbatim>\<open>visitStatement\<close>. Its first statements give the step its position: the parent's
  position when there is a parent, else its own, with the index appended (\<open>positioned\<close>).
  \<open>visitSelf\<close> is the body of the function up to the loop over the children: the depth
  check, the vertex (a second vertex with the same hash is the only error of \<^verbatim>\<open>AddVertex\<close>
  and is ignored; building the label of a step with the nil body panics), the edge into
  the parent, the edge from the previous root step for a step without children, and the
  checks of the body (the two messages that print a value of the expression library are
  shortened). The graph is mutated in place in the source and returned here.
  Go appends to the parent's slice, so the positions of sibling steps can share memory;
  the hashes are taken before a sibling is visited, and the model keeps positions as
  values.
\<close>

definition positioned :: "'i Step option \<Rightarrow> int \<Rightarrow> 'i Step \<Rightarrow> 'i Step" where
  "positioned parent idx e =
     Step ((case parent of Some p \<Rightarrow> Position p | None \<Rightarrow> Position e) @ [idx])
       (StepName e) (Body e) (Children e) (AstNode e) (Pass e)"

definition addVertex :: "'i Step \<Rightarrow> 'i Graph \<Rightarrow> goerror + 'i Graph" where
  "addVertex e g =
     (if Body e = NilBody then Inl (ErrorString ''panic: nil pointer dereference'')
      else case AddVertex (G g) e of
             Inl err \<Rightarrow> if err \<noteq> ErrVertexAlreadyExists then Inl err else Inr g
           | Inr gg \<Rightarrow> Inr (g\<lparr>G := gg\<rparr>))"

definition linkParent :: "'i Step option \<Rightarrow> string \<Rightarrow> 'i Graph \<Rightarrow> goerror + 'i Graph" where
  "linkParent parent key g =
     (case parent of
        None \<Rightarrow> Inr g
      | Some p \<Rightarrow>
          (case AddEdge (G g) key (Hash p) of
             Inl err \<Rightarrow> Inl err
           | Inr gg \<Rightarrow> Inr (g\<lparr>G := gg\<rparr>)))"

definition linkPrevious ::
  "'i Step \<Rightarrow> 'i Step option \<Rightarrow> string \<Rightarrow> 'i Graph \<Rightarrow> goerror + 'i Graph" where
  "linkPrevious e previous key g =
     (case previous of
        Some prev \<Rightarrow>
          if length (Children e) = 0
          then (case AddEdge (G g) (Hash prev) key of
                  Inl err \<Rightarrow> Inl (WithMessage err (''adding edge to previous node '' @ key))
                | Inr gg \<Rightarrow> Inr (g\<lparr>G := gg\<rparr>))
          else Inr g
      | None \<Rightarrow> Inr g)"

definition compileBody ::
  "'i cel_Env \<Rightarrow> int \<Rightarrow> int \<Rightarrow> int \<Rightarrow> 'i Step \<Rightarrow> string \<Rightarrow> 'i Graph \<Rightarrow> goerror + 'i Graph" where
  "compileBody env numStatements idx depth e key g =
     (case Body e of
        Check expr \<Rightarrow>
          (case env expr of
             Inl err \<Rightarrow> Inl (ErrorString (''CEL type-check error: '' @ Error err))
           | Inr (outputType, prog) \<Rightarrow>
               if outputType \<noteq> decls_Bool
               then Inl (ErrorString ''CEL expression must return a boolean'')
               else (case prog of
                       Inl err \<Rightarrow>
                         Inl (ErrorString (''CEL program construction error: '' @ Error err))
                     | Inr prg \<Rightarrow> Inr (g\<lparr>programs := (programs g)(key \<mapsto> prg)\<rparr>)))
      | Ref n \<Rightarrow>
          if Type n = Unknown
          then Inl (ErrorString (''invalid node '' @ String (Body e)
                      @ '': did not match any known start or end nodes''))
          else if Type n = Start \<and> idx \<noteq> 0
          then Inl (ErrorString (''invalid node '' @ String (Body e)
                      @ '': start nodes can only be referenced at the beginning of a workflow''
                      @ '': start node had index '' @ Itoa idx @ '' but need index 0''))
          else if Type n = Start \<and> depth \<noteq> 0
          then Inl (ErrorString (''invalid node '' @ String (Body e)
                      @ '': start nodes can only be referenced at the beginning of a workflow''
                      @ '': start node had depth '' @ Itoa depth @ '' but need depth 0''))
          else if Type n = Outcome \<and> idx \<noteq> numStatements - 1
          then Inl (ErrorString (''invalid node '' @ String (Body e)
                      @ '': end nodes can only be referenced at the end of a workflow''
                      @ '': end node had index '' @ Itoa idx @ '' but need index ''
                      @ Itoa (numStatements - 1)))
          else if Type n = Outcome \<and> depth \<noteq> 0
          then Inl (ErrorString (''invalid node '' @ String (Body e)
                      @ '': end nodes can only be referenced at the end of a workflow''
                      @ '': end node had depth '' @ Itoa depth @ '' but need depth 0''))
          else Inr g
      | _ \<Rightarrow> Inr g)"

definition visitSelf ::
  "'i cel_Env \<Rightarrow> int \<Rightarrow> int \<Rightarrow> 'i Step option \<Rightarrow> 'i Step option \<Rightarrow> int \<Rightarrow> int \<Rightarrow> 'i Step
     \<Rightarrow> 'i Graph \<Rightarrow> goerror + 'i Graph" where
  "visitSelf env maxDepth numStatements parent previous idx depth e g =
     (if depth > maxDepth
      then Inl (ErrorString (''compiler max depth of '' @ Itoa maxDepth
                  @ '' was exceeded (depth='' @ Itoa depth @ '')''))
      else case addVertex e g of
             Inl err \<Rightarrow> Inl err
           | Inr g1 \<Rightarrow>
          (case linkParent parent (Hash e) g1 of
             Inl err \<Rightarrow> Inl err
           | Inr g2 \<Rightarrow>
          (case linkPrevious e previous (Hash e) g2 of
             Inl err \<Rightarrow> Inl err
           | Inr g3 \<Rightarrow> compileBody env numStatements idx depth e (Hash e) g3)))"

fun visitStatement ::
  "'i cel_Env \<Rightarrow> int \<Rightarrow> int \<Rightarrow> 'i Step option \<Rightarrow> 'i Step option \<Rightarrow> int \<Rightarrow> int \<Rightarrow> 'i Step
     \<Rightarrow> 'i Graph \<Rightarrow> goerror + 'i Graph"
and visitChildren ::
  "'i cel_Env \<Rightarrow> int \<Rightarrow> int \<Rightarrow> 'i Step \<Rightarrow> 'i Step option \<Rightarrow> int \<Rightarrow> int \<Rightarrow> 'i Step list
     \<Rightarrow> 'i Graph \<Rightarrow> goerror + 'i Graph"
where
  "visitStatement env maxDepth numStatements parent previous idx depth
       (Step pos nm body children node pass) g =
     (case visitSelf env maxDepth numStatements parent previous idx depth
             (positioned parent idx (Step pos nm body children node pass)) g of
        Inl err \<Rightarrow> Inl err
      | Inr g' \<Rightarrow>
          visitChildren env maxDepth numStatements
            (positioned parent idx (Step pos nm body children node pass))
            previous depth 0 children g')"
| "visitChildren env maxDepth numStatements e previous depth i [] g = Inr g"
| "visitChildren env maxDepth numStatements e previous depth i (child # rest) g =
     (case visitStatement env maxDepth numStatements (Some e) previous i (depth + 1) child g of
        Inl err \<Rightarrow> Inl (Wrap err (AstNode child))
      | Inr g' \<Rightarrow> visitChildren env maxDepth numStatements e previous depth (i + 1) rest g')"

text \<open>
  \<^verbatim>\<open>compilePass\<close>: the checks on the first and last statement, then the loop over the root
  statements (\<open>visitStatements\<close>), where \<open>prev\<close> is the statement visited before, with its
  position.
\<close>

fun visitStatements ::
  "'i cel_Env \<Rightarrow> int \<Rightarrow> int \<Rightarrow> 'i Step option \<Rightarrow> int \<Rightarrow> 'i Step list \<Rightarrow> 'i Graph
     \<Rightarrow> goerror + 'i Graph" where
  "visitStatements env maxDepth numStatements prev i [] g = Inr g"
| "visitStatements env maxDepth numStatements prev i (s # rest) g =
     (case visitStatement env maxDepth numStatements None prev i 0 s g of
        Inl err \<Rightarrow> Inl (Wrap err (AstNode s))
      | Inr g' \<Rightarrow>
          visitStatements env maxDepth numStatements (Some (positioned None i s)) (i + 1) rest g')"

definition compilePass ::
  "'i cel_Env \<Rightarrow> int \<Rightarrow> 'i Step list \<Rightarrow> 'i Graph \<Rightarrow> goerror + 'i Graph" where
  "compilePass env maxDepth statements g =
     (if length statements < 2
      then Inl (ErrorString (''workflow must contain at least 2 statements: got ''
                  @ Itoa (int (length statements)) @ '' statements''))
      else case assertNode (hd statements) Start of
             Some err \<Rightarrow> Inl err
           | None \<Rightarrow>
          (case assertNode (last statements) Outcome of
             Some err \<Rightarrow> Inl err
           | None \<Rightarrow>
               visitStatements env maxDepth (int (length statements)) None 0 statements g))"

text \<open>
  \<^verbatim>\<open>Program.Workflow\<close> maps a pass id to its path; the association list gives the order in
  which Go iterates over the map. \<^verbatim>\<open>Compiler.Compile\<close> takes the environment that
  \<^verbatim>\<open>cel.NewEnv\<close> builds from the input schema as a parameter.
\<close>

type_synonym 'i Program = "(string \<times> 'i Step list) list"

fun compilePasses ::
  "'i cel_Env \<Rightarrow> int \<Rightarrow> 'i Program \<Rightarrow> 'i Graph \<Rightarrow> goerror + 'i Graph" where
  "compilePasses env maxDepth [] g = Inr g"
| "compilePasses env maxDepth ((passID, steps) # rest) g =
     (case compilePass env maxDepth steps g of
        Inl err \<Rightarrow> Inl err
      | Inr g' \<Rightarrow> compilePasses env maxDepth rest g')"

definition DefaultMaxDepth :: int where
  "DefaultMaxDepth = 10"

definition Compile :: "'i cel_Env \<Rightarrow> int \<Rightarrow> 'i Program \<Rightarrow> goerror + 'i Graph" where
  "Compile env maxDepth program =
     compilePasses env (if maxDepth = 0 then DefaultMaxDepth else maxDepth) program NewGraph"

text \<open>\<^verbatim>\<open>Program.Pass\<close> with \<^verbatim>\<open>setPass\<close>, and the step builders of package \<^verbatim>\<open>s\<close>.\<close>

fun setPass :: "string \<Rightarrow> 'i Step \<Rightarrow> 'i Step" where
  "setPass pass (Step pos nm body children node p) =
     Step pos nm body (map (setPass pass) children) node pass"

definition Program_Pass :: "string \<Rightarrow> 'i Step list \<Rightarrow> string \<times> 'i Step list" where
  "Program_Pass name statements = (name, map (setPass name) statements)"

definition s_Start :: "string \<Rightarrow> 'i Step" where
  "s_Start name =
     Step [] [] (Ref \<lparr>Type = Start, ID = name, Name = [], Priority = 0\<rparr>) [] None []"

definition s_Outcome :: "string \<Rightarrow> 'i Step" where
  "s_Outcome name =
     Step [] [] (Ref \<lparr>Type = Outcome, ID = name, Name = [], Priority = 0\<rparr>) [] None []"

definition s_Boolean :: "Operation \<Rightarrow> 'i Step list \<Rightarrow> 'i Step" where
  "s_Boolean op children = Step [] [] (Boolean op) children None []"

definition s_Check :: "string \<Rightarrow> 'i Step" where
  "s_Check expression = Step [] [] (Check expression) [] None []"

text \<open>\<^verbatim>\<open>StepBuilder.Outcome\<close> of a builder with a name and a node priority.\<close>

definition StepBuilder_Outcome :: "string \<Rightarrow> int \<Rightarrow> string \<Rightarrow> 'i Step" where
  "StepBuilder_Outcome name nodePriority ident =
     Step [] name
       (Ref \<lparr>Type = Outcome, ID = ident, Name = name, Priority = nodePriority\<rparr>) [] None []"

text \<open>
  An environment for the two literal expressions of the executor's tests: \<^verbatim>\<open>true\<close> and
  \<^verbatim>\<open>false\<close> are boolean and evaluate to themselves; nothing else type-checks.
\<close>

definition literal_env :: "'i cel_Env" where
  "literal_env expr =
     (if expr = ''true'' then Inr (decls_Bool, Inr (\<lambda>i. Inr (CelBool True)))
      else if expr = ''false'' then Inr (decls_Bool, Inr (\<lambda>i. Inr (CelBool False)))
      else Inl (ErrorString ''undeclared reference''))"

section \<open>The executor (execute.go)\<close>

text \<open>
  \<^verbatim>\<open>State\<close>, \<^verbatim>\<open>Result\<close> (its fields carry the prefix \<open>res\<close>), and the variables that the
  callback of the traversal captures and updates: the completion graph, the state map, the
  running outcome and the error that stops the traversal.
\<close>


datatype State = Inactive | Complete | Active

record 'i Result =
  res_CG :: "'i graph_Graph"
  res_State :: "string \<rightharpoonup> State"
  res_Outcome :: string

record 'i exec =
  cg :: "'i graph_Graph"
  state :: "string \<rightharpoonup> State"
  outcome :: Node
  verr :: "goerror option"

text \<open>
  The callback returns true to stop the traversal, after it has set \<^verbatim>\<open>verr\<close>. \<open>completed\<close>
  are the predecessors whose state is Complete when the vertex is visited; the source
  counts them in \<^verbatim>\<open>completedCount\<close> and adds an edge to the completion graph for each.
\<close>

definition stop :: "goerror \<Rightarrow> 'i exec \<Rightarrow> bool \<times> 'i exec" where
  "stop err es = (True, es\<lparr>verr := Some err\<rparr>)"

definition mark :: "string \<Rightarrow> State \<Rightarrow> 'i exec \<Rightarrow> 'i exec" where
  "mark k st es = es\<lparr>state := (state es)(k \<mapsto> st)\<rparr>"

definition completed :: "(string \<rightharpoonup> State) \<Rightarrow> string list \<Rightarrow> string list" where
  "completed st predecessors = filter (\<lambda>source. st source = Some Complete) predecessors"

fun addCompleteEdges :: "string list \<Rightarrow> string \<Rightarrow> 'i graph_Graph \<Rightarrow> goerror + 'i graph_Graph" where
  "addCompleteEdges [] k c = Inr c"
| "addCompleteEdges (source # rest) k c =
     (case AddEdge c source k of
        Inl err \<Rightarrow> Inl (WithMessage err ''adding edge to complete graph'')
      | Inr c' \<Rightarrow> addCompleteEdges rest k c')"

text \<open>The switch on the body of the visited vertex.\<close>

definition visitBody ::
  "'i Graph \<Rightarrow> 'i \<Rightarrow> string \<Rightarrow> 'i Step \<Rightarrow> nat \<Rightarrow> nat \<Rightarrow> 'i exec \<Rightarrow> bool \<times> 'i exec" where
  "visitBody g input k v completedCount numPredecessors es =
     (case Body v of
        Check expr \<Rightarrow>
          if completedCount = 0 then (False, es)
          else (case programs g k of
                  None \<Rightarrow> stop (ErrorString (''could not find CEL program for '' @ k)) es
                | Some prg \<Rightarrow>
                    (case prg input of
                       Inl err \<Rightarrow> stop err es
                     | Inr val \<Rightarrow>
                         (case val of
                            CelBool valbool \<Rightarrow>
                              (False, if valbool then mark k Complete es else es)
                          | CelOther \<Rightarrow> stop (ErrorString ''could not convert CEL to bool'') es)))
      | Boolean op \<Rightarrow>
          (False,
           let es1 = (if op = And \<and> completedCount = numPredecessors
                      then mark k Complete es else es)
           in if op = Or \<and> completedCount > 0 then mark k Complete es1 else es1)
      | Action nm completer \<Rightarrow>
          (let es1 = (if completedCount > 0 then mark k Active es else es)
           in case completer of
                Some c \<Rightarrow>
                  if completedCount > 0
                  then (case c input of
                          Inl err \<Rightarrow> stop err es1
                        | Inr complete \<Rightarrow>
                            (False, if complete then mark k Complete es1 else es1))
                  else (False, es1)
              | None \<Rightarrow> (False, es1))
      | Ref n \<Rightarrow>
          (let isEndNode = (Type n = Outcome);
               isComplete = (completedCount > 0);
               es1 = (if completedCount > 0 then mark k Complete es else es)
           in (False,
               if isComplete \<and> isEndNode \<and> Priority (outcome es1) < Priority n
               then es1\<lparr>outcome := n\<rparr> else es1))
      | NilBody \<Rightarrow> (False, es))"

text \<open>
  The callback that \<^verbatim>\<open>Execute\<close> passes to \<^verbatim>\<open>graph.BFS\<close>, for the hash \<open>k\<close>. It first sets
  the state of \<open>k\<close> to Inactive, and to Complete when \<open>k\<close> is the start (\<open>startVisit\<close>); then
  come the lookup of the vertex, the completion graph, the count of the completed
  predecessors and the switch on the body.
\<close>

definition startVisit :: "string \<Rightarrow> string \<Rightarrow> 'i exec \<Rightarrow> 'i exec" where
  "startVisit start k es =
     (if k = start then mark k Complete (mark k Inactive es) else mark k Inactive es)"

definition visit :: "'i Graph \<Rightarrow> string \<Rightarrow> 'i \<Rightarrow> string \<Rightarrow> 'i exec \<Rightarrow> bool \<times> 'i exec" where
  "visit g start input k es0 =
     (case Vertex (G g) k of
        None \<Rightarrow> stop ErrVertexNotFound (startVisit start k es0)
      | Some v \<Rightarrow>
          (case AddVertex (cg (startVisit start k es0)) v of
             Inl err \<Rightarrow> stop err (startVisit start k es0)
           | Inr c1 \<Rightarrow>
               (case addCompleteEdges
                       (completed (state (startVisit start k es0)) (PredecessorMap (G g) k))
                       k c1 of
                  Inl err \<Rightarrow> stop err ((startVisit start k es0)\<lparr>cg := c1\<rparr>)
                | Inr c2 \<Rightarrow>
                    visitBody g input k v
                      (length (completed (state (startVisit start k es0))
                                 (PredecessorMap (G g) k)))
                      (length (PredecessorMap (G g) k))
                      ((startVisit start k es0)\<lparr>cg := c2\<rparr>))))"

definition Execute :: "'i Graph \<Rightarrow> string \<Rightarrow> 'i \<Rightarrow> goerror + 'i Result" where
  "Execute g start input =
     (case Vertex (G g) start of
        None \<Rightarrow> Inl ErrVertexNotFound
      | Some startVertex \<Rightarrow>
          (case Body startVertex of
             Ref startNode \<Rightarrow>
               if Type startNode \<noteq> Start
               then Inl (ErrorString (''provided start '' @ start @ '' was not a start node (got ''
                           @ NodeType_String (Type startNode) @ '')''))
               else (let es = BFS (G g) start (visit g start input)
                                \<lparr>cg = graph_New, state = Map.empty, outcome = zero_Node,
                                 verr = None\<rparr>
                     in case verr es of
                          Some err \<Rightarrow> Inl err
                        | None \<Rightarrow>
                            Inr \<lparr>res_CG = cg es, res_State = state es,
                                 res_Outcome = ID (outcome es)\<rparr>)
           | _ \<Rightarrow> Inl (ErrorString (''provided start '' @ start
                         @ '' was not a node reference''))))"

section \<open>Example programs\<close>

text \<open>
  Programs of the executor's tests and of the scenarios of the specification, compiled with
  the environment of the two literals. Each graph is written out; the lemmas \<open>Compile_\<dots>\<close>
  show that it is what the compiler builds.
\<close>

definition simple_program :: "unit Program" where
  "simple_program =
     [Program_Pass ''default''
        [s_Start ''request'', s_Check ''true'', StepBuilder_Outcome [] 1 ''approved'']]"

definition simple_graph :: "unit Graph" where
  "simple_graph =
     \<lparr>G = \<lparr>vertices =
             [Step [0] [] (Ref \<lparr>Type = Start, ID = ''request'', Name = [], Priority = 0\<rparr>)
                [] None ''default'',
              Step [1] [] (Check ''true'') [] None ''default'',
              Step [2] [] (Ref \<lparr>Type = Outcome, ID = ''approved'', Name = [], Priority = 1\<rparr>)
                [] None ''default''],
            edges = [(''request'', ''default.1''), (''default.1'', ''approved'')]\<rparr>,
      programs = [''default.1'' \<mapsto> \<lambda>i. Inr (CelBool True)]\<rparr>"

definition simple_result :: "unit Result" where
  "simple_result =
     \<lparr>res_CG = G simple_graph,
      res_State = [''request'' \<mapsto> Complete, ''default.1'' \<mapsto> Complete,
                   ''approved'' \<mapsto> Complete],
      res_Outcome = ''approved''\<rparr>"

text \<open>The same path with the outcome node of the test dialect, whose priority is 0.\<close>

definition zero_priority_program :: "unit Program" where
  "zero_priority_program =
     [Program_Pass ''default'' [s_Start ''request'', s_Check ''true'', s_Outcome ''approved'']]"

definition zero_priority_graph :: "unit Graph" where
  "zero_priority_graph =
     \<lparr>G = \<lparr>vertices =
             [Step [0] [] (Ref \<lparr>Type = Start, ID = ''request'', Name = [], Priority = 0\<rparr>)
                [] None ''default'',
              Step [1] [] (Check ''true'') [] None ''default'',
              Step [2] [] (Ref \<lparr>Type = Outcome, ID = ''approved'', Name = [], Priority = 0\<rparr>)
                [] None ''default''],
            edges = [(''request'', ''default.1''), (''default.1'', ''approved'')]\<rparr>,
      programs = [''default.1'' \<mapsto> \<lambda>i. Inr (CelBool True)]\<rparr>"

definition zero_priority_result :: "unit Result" where
  "zero_priority_result =
     \<lparr>res_CG = G zero_priority_graph,
      res_State = [''request'' \<mapsto> Complete, ''default.1'' \<mapsto> Complete,
                   ''approved'' \<mapsto> Complete],
      res_Outcome = []\<rparr>"

text \<open>An \<^verbatim>\<open>and\<close> of two checks that hold.\<close>

definition and_program :: "unit Program" where
  "and_program =
     [Program_Pass ''default''
        [s_Start ''request'', s_Boolean And [s_Check ''true'', s_Check ''true''],
         StepBuilder_Outcome [] 1 ''approved'']]"

definition and_graph :: "unit Graph" where
  "and_graph =
     \<lparr>G = \<lparr>vertices =
             [Step [0] [] (Ref \<lparr>Type = Start, ID = ''request'', Name = [], Priority = 0\<rparr>)
                [] None ''default'',
              Step [1] [] (Boolean And)
                [Step [] [] (Check ''true'') [] None ''default'',
                 Step [] [] (Check ''true'') [] None ''default'']
                None ''default'',
              Step [1, 0] [] (Check ''true'') [] None ''default'',
              Step [1, 1] [] (Check ''true'') [] None ''default'',
              Step [2] [] (Ref \<lparr>Type = Outcome, ID = ''approved'', Name = [], Priority = 1\<rparr>)
                [] None ''default''],
            edges =
              [(''default.1.0'', ''default.1''), (''request'', ''default.1.0''),
               (''default.1.1'', ''default.1''), (''request'', ''default.1.1''),
               (''default.1'', ''approved'')]\<rparr>,
      programs = [''default.1.0'' \<mapsto> \<lambda>i. Inr (CelBool True),
                  ''default.1.1'' \<mapsto> \<lambda>i. Inr (CelBool True)]\<rparr>"

definition and_result :: "unit Result" where
  "and_result =
     \<lparr>res_CG =
        \<lparr>vertices =
           [Step [0] [] (Ref \<lparr>Type = Start, ID = ''request'', Name = [], Priority = 0\<rparr>)
              [] None ''default'',
            Step [1, 0] [] (Check ''true'') [] None ''default'',
            Step [1, 1] [] (Check ''true'') [] None ''default'',
            Step [1] [] (Boolean And)
              [Step [] [] (Check ''true'') [] None ''default'',
               Step [] [] (Check ''true'') [] None ''default'']
              None ''default'',
            Step [2] [] (Ref \<lparr>Type = Outcome, ID = ''approved'', Name = [], Priority = 1\<rparr>)
              [] None ''default''],
         edges =
           [(''request'', ''default.1.0''), (''request'', ''default.1.1''),
            (''default.1.0'', ''default.1''), (''default.1.1'', ''default.1''),
            (''default.1'', ''approved'')]\<rparr>,
      res_State = [''request'' \<mapsto> Complete, ''default.1.0'' \<mapsto> Complete,
                   ''default.1.1'' \<mapsto> Complete, ''default.1'' \<mapsto> Complete,
                   ''approved'' \<mapsto> Complete],
      res_Outcome = ''approved''\<rparr>"

text \<open>
  An \<^verbatim>\<open>and\<close> whose first child is an \<^verbatim>\<open>or\<close> around an \<^verbatim>\<open>or\<close> around a check, and whose
  second child is a check; both checks hold.
\<close>

definition nested_program :: "unit Program" where
  "nested_program =
     [Program_Pass ''default''
        [s_Start ''request'',
         s_Boolean And [s_Boolean Or [s_Boolean Or [s_Check ''true'']], s_Check ''true''],
         StepBuilder_Outcome [] 1 ''approved'']]"

definition nested_graph :: "unit Graph" where
  "nested_graph =
     \<lparr>G = \<lparr>vertices =
             [Step [0] [] (Ref \<lparr>Type = Start, ID = ''request'', Name = [], Priority = 0\<rparr>)
                [] None ''default'',
              Step [1] [] (Boolean And)
                [Step [] [] (Boolean Or)
                   [Step [] [] (Boolean Or)
                      [Step [] [] (Check ''true'') [] None ''default''] None ''default'']
                   None ''default'',
                 Step [] [] (Check ''true'') [] None ''default'']
                None ''default'',
              Step [1, 0] [] (Boolean Or)
                [Step [] [] (Boolean Or)
                   [Step [] [] (Check ''true'') [] None ''default''] None ''default'']
                None ''default'',
              Step [1, 0, 0] [] (Boolean Or)
                [Step [] [] (Check ''true'') [] None ''default''] None ''default'',
              Step [1, 0, 0, 0] [] (Check ''true'') [] None ''default'',
              Step [1, 1] [] (Check ''true'') [] None ''default'',
              Step [2] [] (Ref \<lparr>Type = Outcome, ID = ''approved'', Name = [], Priority = 1\<rparr>)
                [] None ''default''],
            edges =
              [(''default.1.0'', ''default.1''), (''default.1.0.0'', ''default.1.0''),
               (''default.1.0.0.0'', ''default.1.0.0''), (''request'', ''default.1.0.0.0''),
               (''default.1.1'', ''default.1''), (''request'', ''default.1.1''),
               (''default.1'', ''approved'')]\<rparr>,
      programs = [''default.1.0.0.0'' \<mapsto> \<lambda>i. Inr (CelBool True),
                  ''default.1.1'' \<mapsto> \<lambda>i. Inr (CelBool True)]\<rparr>"

text \<open>Two passes named \<^verbatim>\<open>a\<close> and \<^verbatim>\<open>a.2\<close> between the same start and outcome.\<close>

definition dotted_program :: "unit Program" where
  "dotted_program =
     [Program_Pass ''a''
        [s_Start ''request'', s_Check ''true'',
         s_Boolean And [s_Check ''true'', s_Check ''false''],
         StepBuilder_Outcome [] 1 ''approved''],
      Program_Pass ''a.2''
        [s_Start ''request'', s_Check ''true'', StepBuilder_Outcome [] 1 ''approved'']]"

definition dotted_graph :: "unit Graph" where
  "dotted_graph =
     \<lparr>G = \<lparr>vertices =
             [Step [0] [] (Ref \<lparr>Type = Start, ID = ''request'', Name = [], Priority = 0\<rparr>)
                [] None ''a'',
              Step [1] [] (Check ''true'') [] None ''a'',
              Step [2] [] (Boolean And)
                [Step [] [] (Check ''true'') [] None ''a'',
                 Step [] [] (Check ''false'') [] None ''a'']
                None ''a'',
              Step [2, 0] [] (Check ''true'') [] None ''a'',
              Step [2, 1] [] (Check ''false'') [] None ''a'',
              Step [3] [] (Ref \<lparr>Type = Outcome, ID = ''approved'', Name = [], Priority = 1\<rparr>)
                [] None ''a''],
            edges =
              [(''request'', ''a.1''), (''a.2.0'', ''a.2''), (''a.1'', ''a.2.0''),
               (''a.2.1'', ''a.2''), (''a.1'', ''a.2.1''), (''a.2'', ''approved''),
               (''request'', ''a.2.1''), (''a.2.1'', ''approved'')]\<rparr>,
      programs = [''a.1'' \<mapsto> \<lambda>i. Inr (CelBool True),
                  ''a.2.0'' \<mapsto> \<lambda>i. Inr (CelBool True),
                  ''a.2.1'' \<mapsto> \<lambda>i. Inr (CelBool True)]\<rparr>"

definition nested_result :: "unit Result" where
  "nested_result =
     \<lparr>res_CG =
        \<lparr>vertices =
           [Step [0] [] (Ref \<lparr>Type = Start, ID = ''request'', Name = [], Priority = 0\<rparr>)
              [] None ''default'',
            Step [1, 0, 0, 0] [] (Check ''true'') [] None ''default'',
            Step [1, 1] [] (Check ''true'') [] None ''default'',
            Step [1, 0, 0] [] (Boolean Or)
              [Step [] [] (Check ''true'') [] None ''default''] None ''default'',
            Step [1] [] (Boolean And)
              [Step [] [] (Boolean Or)
                 [Step [] [] (Boolean Or)
                    [Step [] [] (Check ''true'') [] None ''default''] None ''default'']
                 None ''default'',
               Step [] [] (Check ''true'') [] None ''default'']
              None ''default'',
            Step [1, 0] [] (Boolean Or)
              [Step [] [] (Boolean Or)
                 [Step [] [] (Check ''true'') [] None ''default''] None ''default'']
              None ''default'',
            Step [2] [] (Ref \<lparr>Type = Outcome, ID = ''approved'', Name = [], Priority = 1\<rparr>)
              [] None ''default''],
         edges =
           [(''request'', ''default.1.0.0.0''), (''request'', ''default.1.1''),
            (''default.1.0.0.0'', ''default.1.0.0''), (''default.1.1'', ''default.1''),
            (''default.1.0.0'', ''default.1.0'')]\<rparr>,
      res_State = [''request'' \<mapsto> Complete, ''default.1.0.0.0'' \<mapsto> Complete,
                   ''default.1.1'' \<mapsto> Complete, ''default.1.0.0'' \<mapsto> Complete,
                   ''default.1'' \<mapsto> Inactive, ''default.1.0'' \<mapsto> Complete,
                   ''approved'' \<mapsto> Inactive],
      res_Outcome = []\<rparr>"


text \<open>A check that does not type-check, nested in an \<^verbatim>\<open>and\<close>, with source locations.\<close>

definition located_program :: "unit Program" where
  "located_program =
     [(''default'',
       [Step [] [] (Ref \<lparr>Type = Start, ID = ''request'', Name = [], Priority = 0\<rparr>) []
          (Some (YamlNode ''$.workflow.default.steps[0]'' None)) ''default'',
        Step [] [] (Boolean And)
          [Step [] [] (Check ''aaaa'') []
             (Some (YamlNode ''$.workflow.default.steps[1].and[0]'' None)) ''default'']
          (Some (YamlNode ''$.workflow.default.steps[1]'' None)) ''default'',
        Step [] [] (Ref \<lparr>Type = Outcome, ID = ''approved'', Name = [], Priority = 1\<rparr>) []
          (Some (YamlNode ''$.workflow.default.steps[2]'' None)) ''default''])]"


section \<open>Properties of parsing and of error wrapping\<close>

text \<open>
  Whatever kind the dialect declares for the referenced id, \<^verbatim>\<open>parseNodeRef\<close> succeeds: the
  guard compares \<open>nodeType\<close> with itself.
\<close>

lemma parseNodeRef_declared:
  assumes "scalar body = Some expr" and "Nodes d expr = Some def"
  shows "parseNodeRef e body d nodeType =
           Inr (Step (Position e) (Name def) (Ref (def\<lparr>ID := expr\<rparr>))
                  (Children e) (AstNode e) (Pass e))"
  using assms by (simp add: parseNodeRef_def NodeToValue_def)

text \<open>
  C1. The claim: a \<^verbatim>\<open>start:\<close> or \<^verbatim>\<open>outcome:\<close> step whose id the dialect declares with the other
  kind fails with a kind-mismatch error. The code at the step \<^verbatim>\<open>outcome: request\<close>, with a
  dialect that declares \<^verbatim>\<open>request\<close> as a Start node: parsing succeeds and the step becomes
  a reference to a Start node.
\<close>

theorem parseNodeRef_kind_mismatch_accepted:
  "parseNodeRef (Step [] [] NilBody [] None ''default'')
     (YamlNode ''$.workflow.default.steps[1].outcome'' (Some ''request''))
     \<lparr>Nodes = [''request'' \<mapsto> \<lparr>Type = Start, ID = [], Name = ''Request'', Priority = 0\<rparr>]\<rparr>
     Outcome
   = Inr (Step [] ''Request''
            (Ref \<lparr>Type = Start, ID = ''request'', Name = ''Request'', Priority = 0\<rparr>)
            [] None ''default'')"
  by (simp add: parseNodeRef_def NodeToValue_def)

text \<open>
  C2. The claim: \<^verbatim>\<open>Wrap(e, n)\<close> returns \<open>e\<close> unchanged when \<open>e\<close> is already a \<^verbatim>\<open>NodeError\<close>, so
  the innermost location wins. The code at an error that a child step has wrapped and that
  the root step wraps again: \<^verbatim>\<open>errors.Is\<close> compares with a fresh pointer, finds nothing, and
  the result is a second \<^verbatim>\<open>NodeError\<close> around the first, whose location (as \<^verbatim>\<open>errors.As\<close>
  reads it) is the root step's.
\<close>

theorem Wrap_wraps_NodeError_again:
  "Wrap (NodeError (Some (YamlNode ''$.workflow.default.steps[1].and[0]'' None))
           (ErrorString ''boom''))
        (Some (YamlNode ''$.workflow.default.steps[1]'' None))
   = NodeError (Some (YamlNode ''$.workflow.default.steps[1]'' None))
       (NodeError (Some (YamlNode ''$.workflow.default.steps[1].and[0]'' None))
          (ErrorString ''boom''))
   \<and> map_option fst (errors_As_NodeError
        (Wrap (NodeError (Some (YamlNode ''$.workflow.default.steps[1].and[0]'' None))
                 (ErrorString ''boom''))
              (Some (YamlNode ''$.workflow.default.steps[1]'' None))))
     = Some (Some (YamlNode ''$.workflow.default.steps[1]'' None))"
  by (simp add: Wrap_def new_address_def)

section \<open>Properties of the type provider\<close>

text \<open>
  C8. For every schema and every name registered in the flattened map of the provider
  built from it, \<^verbatim>\<open>FindType\<close> returns the any type for an object node with
  \<^verbatim>\<open>additionalProperties\<close> true, the object type named by the dotted name for any other
  object node, list of string for an array node, double for number, int for integer, and
  string, boolean and null for the scalar types.
\<close>

theorem FindType_registered:
  assumes "typeMap (NewProvider registry root s) tn = Some f"
  shows "(SType f = JObject \<and> AdditionalProps f = TrueSchema \<longrightarrow>
            FindType (NewProvider registry root s) tn = Some decls_Any)
       \<and> (SType f = JObject \<and> AdditionalProps f \<noteq> TrueSchema \<longrightarrow>
            FindType (NewProvider registry root s) tn = Some (decls_NewObjectType tn))
       \<and> (SType f = JArray \<longrightarrow>
            FindType (NewProvider registry root s) tn = Some (decls_NewListType decls_String))
       \<and> (SType f = JNumber \<longrightarrow> FindType (NewProvider registry root s) tn = Some decls_Double)
       \<and> (SType f = JInteger \<longrightarrow> FindType (NewProvider registry root s) tn = Some decls_Int)
       \<and> (SType f = JString \<longrightarrow> FindType (NewProvider registry root s) tn = Some decls_String)
       \<and> (SType f = JBoolean \<longrightarrow> FindType (NewProvider registry root s) tn = Some decls_Bool)
       \<and> (SType f = JNull \<longrightarrow> FindType (NewProvider registry root s) tn = Some decls_Null)"
  using assms by (simp add: FindType_def)

theorem FindType_registered_witness:
  "typeMap (NewProvider (\<lambda>n. None) ''input'' (Some test_schema)) ''input.tags''
     = Some (Schema JObject [] TrueSchema)
   \<and> FindType (NewProvider (\<lambda>n. None) ''input'' (Some test_schema)) ''input.tags''
     = Some decls_Any
   \<and> typeMap (NewProvider (\<lambda>n. None) ''input'' (Some test_schema)) ''input.group''
     = Some (Schema JObject [(''id'', Schema JString [] Unset)] Unset)
   \<and> FindType (NewProvider (\<lambda>n. None) ''input'' (Some test_schema)) ''input.group''
     = Some (decls_NewObjectType ''input.group'')
   \<and> typeMap (NewProvider (\<lambda>n. None) ''input'' (Some test_schema)) ''input.group.id''
     = Some (Schema JString [] Unset)
   \<and> FindType (NewProvider (\<lambda>n. None) ''input'' (Some test_schema)) ''input.group.id''
     = Some decls_String"
proof -
  have tags: "typeMap (NewProvider (\<lambda>n. None) ''input'' (Some test_schema)) ''input.tags''
     = Some (Schema JObject [] TrueSchema)"
    by (simp add: NewProvider_def test_schema_def)
  have group: "typeMap (NewProvider (\<lambda>n. None) ''input'' (Some test_schema)) ''input.group''
     = Some (Schema JObject [(''id'', Schema JString [] Unset)] Unset)"
    by (simp add: NewProvider_def test_schema_def)
  have ident: "typeMap (NewProvider (\<lambda>n. None) ''input'' (Some test_schema)) ''input.group.id''
     = Some (Schema JString [] Unset)"
    by (simp add: NewProvider_def test_schema_def)
  from FindType_registered [OF tags] FindType_registered [OF group]
       FindType_registered [OF ident] tags group ident
  show ?thesis by simp
qed

section \<open>The traversal\<close>

text \<open>
  Facts about \<^verbatim>\<open>graph.BFS\<close> that do not depend on the callback: a rule for proving an
  invariant of the loop, and the invariant \<open>binv\<close> of the queue and the visited set. The
  hashes that were taken from the queue (visited and no longer queued) are closed under
  the edges up to the visited set, and every visited hash other than the start has an edge
  from one of them.
\<close>

lemma set_AdjacencyMap: "set (AdjacencyMap g k) = {v. (k, v) \<in> set (edges g)}"
  by (auto simp: AdjacencyMap_def intro: image_eqI [where x = "(k, v)" for v])

lemma set_PredecessorMap: "set (PredecessorMap g k) = {u. (u, k) \<in> set (edges g)}"
  by (auto simp: PredecessorMap_def intro: image_eqI [where x = "(u, k)" for u])

lemma distinct_PredecessorMap: "distinct (PredecessorMap g k)"
  by (simp add: PredecessorMap_def)

lemma enqueue_visited: "set (fst (enqueue as visited queue)) = set visited \<union> set as"
  by (induction as arbitrary: visited queue) auto

lemma enqueue_queue:
  "set (snd (enqueue as visited queue)) = set queue \<union> (set as - set visited)"
  by (induction as arbitrary: visited queue) auto

lemma enqueue_distinct:
  "distinct queue \<Longrightarrow> set queue \<subseteq> set visited \<Longrightarrow> distinct (snd (enqueue as visited queue))"
proof (induction as arbitrary: visited queue)
  case Nil
  then show ?case by simp
next
  case (Cons a as)
  show ?case
  proof (cases "a \<in> set visited")
    case True
    with Cons show ?thesis by simp
  next
    case False
    have "distinct (queue @ [a])" using Cons.prems False by auto
    moreover have "set (queue @ [a]) \<subseteq> set (a # visited)" using Cons.prems by auto
    ultimately show ?thesis using Cons.IH [of "queue @ [a]" "a # visited"] False by simp
  qed
qed

lemma enqueue_prefix: "\<exists>news. snd (enqueue as visited queue) = queue @ news"
  by (induction as arbitrary: visited queue) (auto, metis append.assoc)

lemma BFS_loop_rule:
  assumes init: "I queue visited s"
    and step: "\<And>c q vis s. I (c # q) vis s \<Longrightarrow> \<not> fst (f c s) \<Longrightarrow>
                 I (snd (enqueue (AdjacencyMap g c) vis q))
                   (fst (enqueue (AdjacencyMap g c) vis q)) (snd (f c s))"
    and stopped: "\<And>c q vis s. I (c # q) vis s \<Longrightarrow> fst (f c s) \<Longrightarrow> Q (snd (f c s))"
    and finished: "\<And>vis s. I [] vis s \<Longrightarrow> Q s"
  shows "Q (BFS_loop g f queue visited s)"
  using assms
proof (induction g f queue visited s rule: BFS_loop.induct)
  case (1 g f visited s)
  then show ?case by simp
next
  case (2 g f currentHash queue visited s)
  show ?case
  proof (cases "fst (f currentHash s)")
    case True
    from "2.prems"(3) [OF "2.prems"(1) True] True show ?thesis by simp
  next
    case False
    have "I (snd (enqueue (AdjacencyMap g currentHash) visited queue))
            (fst (enqueue (AdjacencyMap g currentHash) visited queue)) (snd (f currentHash s))"
      by (rule "2.prems"(2) [OF "2.prems"(1) False])
    from "2.IH" [OF False this "2.prems"(2) "2.prems"(3) "2.prems"(4)] False
    show ?thesis by simp
  qed
qed


definition reachable :: "'i graph_Graph \<Rightarrow> string \<Rightarrow> string set" where
  "reachable g start = {v. (start, v) \<in> (set (edges g))\<^sup>*}"

definition binv :: "'i graph_Graph \<Rightarrow> string \<Rightarrow> string list \<Rightarrow> string list \<Rightarrow> bool" where
  "binv g start queue visited \<longleftrightarrow>
     start \<in> set visited \<and> distinct queue \<and> set queue \<subseteq> set visited
     \<and> set visited \<subseteq> reachable g start
     \<and> (\<forall>u \<in> set visited - set queue. \<forall>v. (u, v) \<in> set (edges g) \<longrightarrow> v \<in> set visited)
     \<and> (\<forall>v \<in> set visited. v \<noteq> start \<longrightarrow>
           (\<exists>u \<in> set visited - set queue. (u, v) \<in> set (edges g)))"

lemma binv_init: "binv g start [start] [start]"
  by (simp add: binv_def reachable_def)

lemma processed_step:
  assumes "binv g start (c # q) vis"
  shows "set (fst (enqueue (AdjacencyMap g c) vis q)) - set (snd (enqueue (AdjacencyMap g c) vis q))
           = insert c (set vis - set (c # q))"
  using assms by (auto simp: binv_def enqueue_visited enqueue_queue)

lemma binv_step:
  assumes "binv g start (c # q) vis"
  shows "binv g start (snd (enqueue (AdjacencyMap g c) vis q))
           (fst (enqueue (AdjacencyMap g c) vis q))"
proof -
  let ?q = "snd (enqueue (AdjacencyMap g c) vis q)"
  let ?vis = "fst (enqueue (AdjacencyMap g c) vis q)"
  have vis: "set ?vis = set vis \<union> {v. (c, v) \<in> set (edges g)}"
    by (simp add: enqueue_visited set_AdjacencyMap)
  have q: "set ?q = set q \<union> ({v. (c, v) \<in> set (edges g)} - set vis)"
    by (simp add: enqueue_queue set_AdjacencyMap)
  have proc: "set ?vis - set ?q = insert c (set vis - set (c # q))"
    by (rule processed_step [OF assms])
  from assms have c: "c \<in> set vis" "c \<in> reachable g start" "c \<notin> set q"
    and dq: "distinct q" "set q \<subseteq> set vis"
    by (auto simp: binv_def)
  have 1: "start \<in> set ?vis" using assms vis by (simp add: binv_def)
  have 2: "distinct ?q" using dq by (rule enqueue_distinct)
  have 3: "set ?q \<subseteq> set ?vis" using dq vis q by auto
  have 4: "set ?vis \<subseteq> reachable g start"
  proof
    fix v assume "v \<in> set ?vis"
    then consider "v \<in> set vis" | "(c, v) \<in> set (edges g)" using vis by auto
    then show "v \<in> reachable g start"
    proof cases
      case 1
      then show ?thesis using assms by (auto simp: binv_def)
    next
      case 2
      with c(2) show ?thesis by (auto simp: reachable_def intro: rtrancl_into_rtrancl)
    qed
  qed
  have 5: "\<forall>u \<in> set ?vis - set ?q. \<forall>v. (u, v) \<in> set (edges g) \<longrightarrow> v \<in> set ?vis"
  proof (intro ballI allI impI)
    fix u v assume u: "u \<in> set ?vis - set ?q" and e: "(u, v) \<in> set (edges g)"
    from u proc have "u = c \<or> u \<in> set vis - set (c # q)" by auto
    then show "v \<in> set ?vis"
    proof
      assume "u = c" with e vis show ?thesis by auto
    next
      assume "u \<in> set vis - set (c # q)"
      with assms e have "v \<in> set vis" unfolding binv_def by blast
      with vis show ?thesis by auto
    qed
  qed
  have 6: "\<forall>v \<in> set ?vis. v \<noteq> start \<longrightarrow> (\<exists>u \<in> set ?vis - set ?q. (u, v) \<in> set (edges g))"
  proof (intro ballI impI)
    fix v assume v: "v \<in> set ?vis" and ns: "v \<noteq> start"
    show "\<exists>u \<in> set ?vis - set ?q. (u, v) \<in> set (edges g)"
    proof (cases "v \<in> set vis")
      case True
      with assms ns obtain u where "u \<in> set vis - set (c # q)" "(u, v) \<in> set (edges g)"
        unfolding binv_def by blast
      with proc show ?thesis by blast
    next
      case False
      with v vis have "(c, v) \<in> set (edges g)" by auto
      with proc show ?thesis by blast
    qed
  qed
  from 1 2 3 4 5 6 show ?thesis unfolding binv_def by blast
qed

lemma binv_final:
  assumes "binv g start [] vis"
  shows "set vis = reachable g start"
proof
  show "set vis \<subseteq> reachable g start" using assms by (simp add: binv_def)
next
  show "reachable g start \<subseteq> set vis"
  proof
    fix v assume "v \<in> reachable g start"
    then have "(start, v) \<in> (set (edges g))\<^sup>*" by (simp add: reachable_def)
    then show "v \<in> set vis"
    proof (induction rule: rtrancl_induct)
      case base
      then show ?case using assms by (simp add: binv_def)
    next
      case (step y z)
      with assms show ?case unfolding binv_def by auto
    qed
  qed
qed

section \<open>The callback of the executor\<close>

lemma visitBody_state_other:
  "k' \<noteq> k \<Longrightarrow> state (snd (visitBody g input k v cc np es)) k' = state es k'"
  by (cases "Body v")
     (simp_all add: visitBody_def Let_def mark_def stop_def
        split: option.splits sum.splits celval.splits)

lemma visitBody_verr_continue:
  "\<not> fst (visitBody g input k v cc np es) \<Longrightarrow> verr (snd (visitBody g input k v cc np es)) = verr es"
  by (cases "Body v")
     (simp_all add: visitBody_def Let_def mark_def stop_def
        split: option.splits sum.splits celval.splits if_splits)

lemma visitBody_verr_stop:
  "fst (visitBody g input k v cc np es) \<Longrightarrow> verr (snd (visitBody g input k v cc np es)) \<noteq> None"
  by (cases "Body v")
     (simp_all add: visitBody_def Let_def mark_def stop_def
        split: option.splits sum.splits celval.splits if_splits)

lemma visitBody_dom:
  "state es k \<noteq> None \<Longrightarrow> dom (state (snd (visitBody g input k v cc np es))) = dom (state es)"
  by (cases "Body v")
     (auto simp: visitBody_def Let_def mark_def stop_def
        split: option.splits sum.splits celval.splits if_splits)


lemma visitBody_changed:
  assumes "\<not> fst (visitBody g input k v cc np es)"
    and "state (snd (visitBody g input k v cc np es)) k \<noteq> state es k"
  shows "0 < cc \<or> (Body v = Boolean And \<and> cc = np)"
  using assms
  by (cases "Body v")
     (auto simp: visitBody_def Let_def mark_def stop_def
        split: option.splits sum.splits celval.splits if_splits)

lemma visitBody_values:
  "state (snd (visitBody g input k v cc np es)) k = state es k
   \<or> state (snd (visitBody g input k v cc np es)) k = Some Active
   \<or> state (snd (visitBody g input k v cc np es)) k = Some Complete"
  by (cases "Body v")
     (auto simp: visitBody_def Let_def mark_def stop_def
        split: option.splits sum.splits celval.splits if_splits)

lemma visitBody_Ref_state:
  assumes "Body v = Ref n"
  shows "state (snd (visitBody g input k v cc np es)) k =
           (if 0 < cc then Some Complete else state es k)"
  using assms by (simp add: visitBody_def Let_def mark_def)

lemma visitBody_Ref_continue:
  assumes "Body v = Ref n"
  shows "\<not> fst (visitBody g input k v cc np es)"
  using assms by (simp add: visitBody_def Let_def mark_def)

lemma visitBody_And_state:
  assumes "Body v = Boolean And"
  shows "state (snd (visitBody g input k v cc np es)) k =
           (if cc = np then Some Complete else state es k)"
    and "\<not> fst (visitBody g input k v cc np es)"
  using assms by (simp_all add: visitBody_def Let_def mark_def)

lemma visitBody_outcome_cases:
  "outcome (snd (visitBody g input k v cc np es)) = outcome es
   \<or> (\<exists>n. Body v = Ref n \<and> Type n = Outcome \<and> 0 < cc
          \<and> Priority (outcome es) < Priority n
          \<and> outcome (snd (visitBody g input k v cc np es)) = n)"
  by (cases "Body v")
     (auto simp: visitBody_def Let_def mark_def stop_def
        split: option.splits sum.splits celval.splits if_splits)

lemma visitBody_outcome_max:
  assumes "Body v = Ref n" and "Type n = Outcome" and "0 < cc"
  shows "Priority n \<le> Priority (outcome (snd (visitBody g input k v cc np es)))"
  using assms by (simp add: visitBody_def Let_def mark_def)

lemma visitBody_outcome_mono:
  "Priority (outcome es) \<le> Priority (outcome (snd (visitBody g input k v cc np es)))"
  using visitBody_outcome_cases [of g input k v cc np es] by auto

lemma startVisit_state:
  "state (startVisit start k es) = (state es)(k \<mapsto> (if k = start then Complete else Inactive))"
  by (auto simp: startVisit_def mark_def)

lemma startVisit_other [simp]:
  "verr (startVisit start k es) = verr es" "outcome (startVisit start k es) = outcome es"
  by (simp_all add: startVisit_def mark_def)

lemma visit_cases:
  obtains (stopped) err c where
      "visit g start input k es = stop err ((startVisit start k es)\<lparr>cg := c\<rparr>)"
  | (body) v c where "Vertex (G g) k = Some v"
      "visit g start input k es =
         visitBody g input k v
           (length (completed (state (startVisit start k es)) (PredecessorMap (G g) k)))
           (length (PredecessorMap (G g) k))
           ((startVisit start k es)\<lparr>cg := c\<rparr>)"
proof (cases "Vertex (G g) k")
  case None
  then have "visit g start input k es
      = stop ErrVertexNotFound ((startVisit start k es)\<lparr>cg := cg (startVisit start k es)\<rparr>)"
    by (simp add: visit_def)
  then show ?thesis by (rule stopped)
next
  case (Some v)
  show ?thesis
  proof (cases "AddVertex (cg (startVisit start k es)) v")
    case (Inl err)
    with Some have "visit g start input k es
      = stop err ((startVisit start k es)\<lparr>cg := cg (startVisit start k es)\<rparr>)"
      by (simp add: visit_def)
    then show ?thesis by (rule stopped)
  next
    case (Inr c1)
    show ?thesis
    proof (cases "addCompleteEdges
                    (completed (state (startVisit start k es)) (PredecessorMap (G g) k)) k c1")
      case (Inl err)
      with Some Inr have "visit g start input k es
          = stop err ((startVisit start k es)\<lparr>cg := c1\<rparr>)"
        by (simp add: visit_def)
      then show ?thesis by (rule stopped)
    next
      case (Inr c2)
      with Some \<open>AddVertex (cg (startVisit start k es)) v = Inr c1\<close>
      have "visit g start input k es =
         visitBody g input k v
           (length (completed (state (startVisit start k es)) (PredecessorMap (G g) k)))
           (length (PredecessorMap (G g) k))
           ((startVisit start k es)\<lparr>cg := c2\<rparr>)"
        by (simp add: visit_def)
      with Some show ?thesis by (rule body)
    qed
  qed
qed

lemma visit_state_other:
  assumes "k' \<noteq> k"
  shows "state (snd (visit g start input k es)) k' = state es k'"
proof (cases rule: visit_cases [of g start input k es])
  case (stopped err c)
  with assms show ?thesis by (simp add: stop_def startVisit_state)
next
  case (body v c)
  with assms show ?thesis by (simp add: visitBody_state_other startVisit_state)
qed

lemma visit_state_dom:
  "dom (state (snd (visit g start input k es))) = insert k (dom (state es))"
proof (cases rule: visit_cases [of g start input k es])
  case (stopped err c)
  then show ?thesis by (simp add: stop_def startVisit_state)
next
  case (body v c)
  have "state ((startVisit start k es)\<lparr>cg := c\<rparr>) k \<noteq> None"
    by (simp add: startVisit_state)
  from visitBody_dom [OF this] body show ?thesis by (simp add: startVisit_state)
qed

lemma visit_verr_continue:
  assumes "\<not> fst (visit g start input k es)"
  shows "verr (snd (visit g start input k es)) = verr es"
proof (cases rule: visit_cases [of g start input k es])
  case (stopped err c)
  with assms show ?thesis by (simp add: stop_def)
next
  case (body v c)
  with assms visitBody_verr_continue show ?thesis by fastforce
qed

lemma visit_verr_stop:
  assumes "fst (visit g start input k es)"
  shows "verr (snd (visit g start input k es)) \<noteq> None"
proof (cases rule: visit_cases [of g start input k es])
  case (stopped err c)
  then show ?thesis by (simp add: stop_def)
next
  case (body v c)
  with assms visitBody_verr_stop show ?thesis by fastforce
qed

lemma visit_start:
  assumes "Vertex (G g) start = Some sv" and "Body sv = Ref sn"
  shows "state (snd (visit g start input start es)) start = Some Complete"
proof (cases rule: visit_cases [of g start input start es])
  case (stopped err c)
  then show ?thesis by (simp add: stop_def startVisit_state)
next
  case (body v c)
  with assms have "Body v = Ref sn" by simp
  from visitBody_Ref_state [OF this] body(2) show ?thesis by (simp add: startVisit_state)
qed

lemma completed_nonempty:
  assumes "0 < length (completed st ps)"
  shows "\<exists>p \<in> set ps. st p = Some Complete"
proof -
  from assms obtain p where "p \<in> set (completed st ps)"
    by (cases "completed st ps") auto
  then show ?thesis by (auto simp: completed_def)
qed

lemma completed_all:
  assumes "length (completed st ps) = length ps"
  shows "\<forall>p \<in> set ps. st p = Some Complete"
proof -
  from assms have "filter (\<lambda>source. st source = Some Complete) ps = ps"
    unfolding completed_def by (metis length_filter_less nat_less_le filter_True)
  then show ?thesis by (metis (mono_tags, lifting) filter_id_conv)
qed

lemma visit_active_complete:
  assumes cont: "\<not> fst (visit g start input k es)"
    and ns: "k \<noteq> start"
    and preds: "PredecessorMap (G g) k \<noteq> []"
    and st: "state (snd (visit g start input k es)) k = Some Active
             \<or> state (snd (visit g start input k es)) k = Some Complete"
  shows "\<exists>p \<in> set (PredecessorMap (G g) k). p \<noteq> k \<and> state es p = Some Complete"
proof (cases rule: visit_cases [of g start input k es])
  case (stopped err c)
  with cont show ?thesis by (simp add: stop_def)
next
  case (body v c)
  let ?st = "state (startVisit start k es)"
  let ?cc = "length (completed ?st (PredecessorMap (G g) k))"
  let ?np = "length (PredecessorMap (G g) k)"
  let ?es = "(startVisit start k es)\<lparr>cg := c\<rparr>"
  have k: "?st k = Some Inactive" using ns by (simp add: startVisit_state)
  from st body(2) k have "state (snd (visitBody g input k v ?cc ?np ?es)) k \<noteq> state ?es k"
    by auto
  with cont body(2) have "0 < ?cc \<or> (Body v = Boolean And \<and> ?cc = ?np)"
    using visitBody_changed [of g input k v ?cc ?np ?es] by simp
  then have "\<exists>p \<in> set (PredecessorMap (G g) k). ?st p = Some Complete"
  proof
    assume "0 < ?cc"
    then show ?thesis by (rule completed_nonempty)
  next
    assume "Body v = Boolean And \<and> ?cc = ?np"
    then have "\<forall>p \<in> set (PredecessorMap (G g) k). ?st p = Some Complete"
      using completed_all by blast
    moreover from preds obtain p where "p \<in> set (PredecessorMap (G g) k)"
      by (cases "PredecessorMap (G g) k") auto
    ultimately show ?thesis by blast
  qed
  then obtain p where p: "p \<in> set (PredecessorMap (G g) k)" "?st p = Some Complete" by blast
  with k have "p \<noteq> k" by auto
  with p show ?thesis by (auto simp: startVisit_state)
qed

lemma visit_outcome_cases:
  assumes "k \<noteq> start"
  shows "outcome (snd (visit g start input k es)) = outcome es
   \<or> (\<exists>v n. Vertex (G g) k = Some v \<and> Body v = Ref n \<and> Type n = Outcome
          \<and> Priority (outcome es) < Priority n
          \<and> outcome (snd (visit g start input k es)) = n
          \<and> state (snd (visit g start input k es)) k = Some Complete)"
proof (cases rule: visit_cases [of g start input k es])
  case (stopped err c)
  then show ?thesis by (simp add: stop_def)
next
  case (body v c)
  let ?cc = "length (completed (state (startVisit start k es)) (PredecessorMap (G g) k))"
  let ?np = "length (PredecessorMap (G g) k)"
  let ?es = "(startVisit start k es)\<lparr>cg := c\<rparr>"
  from visitBody_outcome_cases [of g input k v ?cc ?np ?es]
  show ?thesis
  proof
    assume "outcome (snd (visitBody g input k v ?cc ?np ?es)) = outcome ?es"
    with body show ?thesis by simp
  next
    assume "\<exists>n. Body v = Ref n \<and> Type n = Outcome \<and> 0 < ?cc
          \<and> Priority (outcome ?es) < Priority n
          \<and> outcome (snd (visitBody g input k v ?cc ?np ?es)) = n"
    then obtain n where n: "Body v = Ref n" "Type n = Outcome" "0 < ?cc"
       "Priority (outcome ?es) < Priority n"
       "outcome (snd (visitBody g input k v ?cc ?np ?es)) = n" by blast
    from visitBody_Ref_state [OF n(1), of g input k ?cc ?np ?es] n(3)
    have "state (snd (visitBody g input k v ?cc ?np ?es)) k = Some Complete" by simp
    with n body show ?thesis by simp
  qed
qed

lemma visit_outcome_mono:
  "Priority (outcome es) \<le> Priority (outcome (snd (visit g start input k es)))"
proof (cases rule: visit_cases [of g start input k es])
  case (stopped err c)
  then show ?thesis by (simp add: stop_def)
next
  case (body v c)
  with visitBody_outcome_mono [of "(startVisit start k es)\<lparr>cg := c\<rparr>" g input k v]
  show ?thesis by simp
qed

lemma visit_outcome_max:
  assumes "Vertex (G g) k = Some v" and "Body v = Ref n" and "Type n = Outcome"
    and "k \<noteq> start"
    and "state (snd (visit g start input k es)) k = Some Complete"
  shows "Priority n \<le> Priority (outcome (snd (visit g start input k es)))"
proof (cases rule: visit_cases [of g start input k es])
  case (stopped err c)
  with assms show ?thesis by (simp add: stop_def startVisit_state)
next
  case (body v' c)
  let ?cc = "length (completed (state (startVisit start k es)) (PredecessorMap (G g) k))"
  let ?np = "length (PredecessorMap (G g) k)"
  let ?es = "(startVisit start k es)\<lparr>cg := c\<rparr>"
  from body assms have v: "v' = v" by simp
  from visitBody_Ref_state [OF assms(2), of g input k ?cc ?np ?es] assms(4,5) body(2) v
  have "0 < ?cc" by (simp add: startVisit_state split: if_splits)
  from visitBody_outcome_max [OF assms(2,3) this] body(2) v show ?thesis by simp
qed

section \<open>The invariant of an execution\<close>

text \<open>
  While the traversal of \<^verbatim>\<open>Execute\<close> runs without an error: the state map has an entry for
  exactly the hashes taken from the queue; the start, once visited, is Complete; an Active
  or Complete vertex other than the start has a Complete predecessor; the running outcome
  is the zero node or the node of a Complete Outcome vertex with a positive priority; and
  no Complete Outcome vertex has a higher priority than the running outcome.
\<close>

definition einv :: "'i Graph \<Rightarrow> string \<Rightarrow> string list \<Rightarrow> string list \<Rightarrow> 'i exec \<Rightarrow> bool" where
  "einv g start queue visited es \<longleftrightarrow>
     binv (G g) start queue visited
     \<and> dom (state es) = set visited - set queue
     \<and> verr es = None
     \<and> (start \<in> dom (state es) \<longrightarrow> state es start = Some Complete)
     \<and> (\<forall>v. state es v = Some Active \<or> state es v = Some Complete \<longrightarrow>
            v = start \<or> (\<exists>p \<in> set (PredecessorMap (G g) v). state es p = Some Complete))
     \<and> (outcome es = zero_Node \<or>
          (0 < Priority (outcome es) \<and>
           (\<exists>k v. state es k = Some Complete \<and> Vertex (G g) k = Some v
                  \<and> Body v = Ref (outcome es) \<and> Type (outcome es) = Outcome)))
     \<and> (\<forall>k v n. state es k = Some Complete \<longrightarrow> Vertex (G g) k = Some v \<longrightarrow>
            Body v = Ref n \<longrightarrow> Type n = Outcome \<longrightarrow> Priority n \<le> Priority (outcome es))"

definition initial_exec :: "'i exec" where
  "initial_exec = \<lparr>cg = graph_New, state = Map.empty, outcome = zero_Node, verr = None\<rparr>"

lemma einv_init: "einv g start [start] [start] initial_exec"
  by (simp add: einv_def binv_init initial_exec_def)

lemma einv_step:
  assumes sv: "Vertex (G g) start = Some sv" "Body sv = Ref sn" "Type sn = Start"
    and inv: "einv g start (c # q) vis es"
    and cont: "\<not> fst (visit g start input c es)"
  shows "einv g start (snd (enqueue (AdjacencyMap (G g) c) vis q))
           (fst (enqueue (AdjacencyMap (G g) c) vis q)) (snd (visit g start input c es))"
proof -
  let ?q = "snd (enqueue (AdjacencyMap (G g) c) vis q)"
  let ?vis = "fst (enqueue (AdjacencyMap (G g) c) vis q)"
  let ?es = "snd (visit g start input c es)"
  from inv have b: "binv (G g) start (c # q) vis" and d: "dom (state es) = set vis - set (c # q)"
    and noerr: "verr es = None"
    and st: "start \<in> dom (state es) \<longrightarrow> state es start = Some Complete"
    and ac: "\<forall>v. state es v = Some Active \<or> state es v = Some Complete \<longrightarrow>
            v = start \<or> (\<exists>p \<in> set (PredecessorMap (G g) v). state es p = Some Complete)"
    and oc: "outcome es = zero_Node \<or>
          (0 < Priority (outcome es) \<and>
           (\<exists>k v. state es k = Some Complete \<and> Vertex (G g) k = Some v
                  \<and> Body v = Ref (outcome es) \<and> Type (outcome es) = Outcome))"
    and mx: "\<forall>k v n. state es k = Some Complete \<longrightarrow> Vertex (G g) k = Some v \<longrightarrow>
            Body v = Ref n \<longrightarrow> Type n = Outcome \<longrightarrow> Priority n \<le> Priority (outcome es)"
    by (simp_all add: einv_def)
  have cnew: "c \<notin> dom (state es)" using d by simp
  have other: "\<And>k. k \<noteq> c \<Longrightarrow> state ?es k = state es k" by (rule visit_state_other)
  have old: "\<And>k x. state es k = Some x \<Longrightarrow> state ?es k = Some x"
    using other cnew by (metis domI)
  have 1: "binv (G g) start ?q ?vis" by (rule binv_step [OF b])
  have 2: "dom (state ?es) = set ?vis - set ?q"
    using processed_step [OF b] d by (simp add: visit_state_dom)
  have 3: "verr ?es = None" using visit_verr_continue [OF cont] noerr by simp
  have 4: "start \<in> dom (state ?es) \<longrightarrow> state ?es start = Some Complete"
  proof (cases "c = start")
    case True
    with visit_start [OF sv(1,2)] show ?thesis by simp
  next
    case False
    with st other show ?thesis by (auto simp: visit_state_dom)
  qed
  have 5: "\<forall>v. state ?es v = Some Active \<or> state ?es v = Some Complete \<longrightarrow>
            v = start \<or> (\<exists>p \<in> set (PredecessorMap (G g) v). state ?es p = Some Complete)"
  proof (intro allI impI)
    fix v assume v: "state ?es v = Some Active \<or> state ?es v = Some Complete"
    show "v = start \<or> (\<exists>p \<in> set (PredecessorMap (G g) v). state ?es p = Some Complete)"
    proof (cases "v = c")
      case True
      show ?thesis
      proof (cases "c = start")
        case True
        with \<open>v = c\<close> show ?thesis by simp
      next
        case False
        from b have "c \<in> set vis" by (simp add: binv_def)
        with b False obtain u where "(u, c) \<in> set (edges (G g))" unfolding binv_def by blast
        then have "PredecessorMap (G g) c \<noteq> []" using set_PredecessorMap [of "G g" c] by auto
        from visit_active_complete [OF cont False this] v True
        obtain p where "p \<in> set (PredecessorMap (G g) c)" "state es p = Some Complete" by blast
        with old True show ?thesis by blast
      qed
    next
      case False
      with v other have "state es v = Some Active \<or> state es v = Some Complete" by simp
      with ac have "v = start \<or> (\<exists>p \<in> set (PredecessorMap (G g) v). state es p = Some Complete)"
        by blast
      with old show ?thesis by blast
    qed
  qed
  have nonneg: "0 \<le> Priority (outcome es)" using oc by (auto simp: zero_Node_def)
  have 6: "outcome ?es = zero_Node \<or>
          (0 < Priority (outcome ?es) \<and>
           (\<exists>k v. state ?es k = Some Complete \<and> Vertex (G g) k = Some v
                  \<and> Body v = Ref (outcome ?es) \<and> Type (outcome ?es) = Outcome))"
  proof (cases "c = start")
    case True
    have "Body sv = Ref sn" by (rule sv(2))
    have "outcome ?es = outcome es"
    proof (cases rule: visit_cases [of g start input c es])
      case (stopped err c')
      then show ?thesis by (simp add: stop_def)
    next
      case (body v c')
      with sv True have "Body v = Ref sn" by simp
      with sv(3) body(2) show ?thesis by (simp add: visitBody_def Let_def mark_def)
    qed
    with oc old show ?thesis by metis
  next
    case False
    from visit_outcome_cases [OF False, of g input es]
    show ?thesis
    proof
      assume "outcome ?es = outcome es"
      with oc old show ?thesis by metis
    next
      assume "\<exists>v n. Vertex (G g) c = Some v \<and> Body v = Ref n \<and> Type n = Outcome
          \<and> Priority (outcome es) < Priority n \<and> outcome ?es = n
          \<and> state ?es c = Some Complete"
      with nonneg show ?thesis by force
    qed
  qed
  have 7: "\<forall>k v n. state ?es k = Some Complete \<longrightarrow> Vertex (G g) k = Some v \<longrightarrow>
            Body v = Ref n \<longrightarrow> Type n = Outcome \<longrightarrow> Priority n \<le> Priority (outcome ?es)"
  proof (intro allI impI)
    fix k v n
    assume k: "state ?es k = Some Complete" "Vertex (G g) k = Some v" "Body v = Ref n"
      "Type n = Outcome"
    show "Priority n \<le> Priority (outcome ?es)"
    proof (cases "k = c")
      case True
      from k sv have "k \<noteq> start" by auto
      with visit_outcome_max [of g k v n start input es] k True show ?thesis by simp
    next
      case False
      with k other have "state es k = Some Complete" by simp
      with mx k have "Priority n \<le> Priority (outcome es)" by blast
      also have "\<dots> \<le> Priority (outcome ?es)" by (rule visit_outcome_mono)
      finally show ?thesis .
    qed
  qed
  from 1 2 3 4 5 6 7 show ?thesis unfolding einv_def by blast
qed

lemma Execute_einv:
  assumes "Execute g start input = Inr res"
  obtains vis es sv sn where
    "Vertex (G g) start = Some sv" "Body sv = Ref sn" "Type sn = Start"
    "einv g start [] vis es"
    "res = \<lparr>res_CG = cg es, res_State = state es, res_Outcome = ID (outcome es)\<rparr>"
proof -
  from assms obtain sv sn where sv: "Vertex (G g) start = Some sv" "Body sv = Ref sn"
      "Type sn = Start"
    by (auto simp: Execute_def split: option.splits Body.splits if_splits)
  define es where "es = BFS (G g) start (visit g start input) initial_exec"
  have run: "es = BFS_loop (G g) (visit g start input) [start] [start] initial_exec"
    using sv by (simp add: es_def BFS_def)
  have "verr es = None \<longrightarrow> (\<exists>vis. einv g start [] vis es)"
    unfolding run
  proof (rule BFS_loop_rule [where I = "einv g start"])
    show "einv g start [start] [start] initial_exec" by (rule einv_init)
  next
    fix c q vis s
    assume "einv g start (c # q) vis s" "\<not> fst (visit g start input c s)"
    then show "einv g start (snd (enqueue (AdjacencyMap (G g) c) vis q))
           (fst (enqueue (AdjacencyMap (G g) c) vis q)) (snd (visit g start input c s))"
      by (rule einv_step [OF sv])
  next
    fix c q vis s
    assume "fst (visit g start input c s)"
    then have "verr (snd (visit g start input c s)) \<noteq> None" by (rule visit_verr_stop)
    then show "verr (snd (visit g start input c s)) = None \<longrightarrow>
               (\<exists>vis. einv g start [] vis (snd (visit g start input c s)))"
      by auto
  next
    fix vis s
    assume "einv g start [] vis s"
    then show "verr s = None \<longrightarrow> (\<exists>vis. einv g start [] vis s)" by blast
  qed
  moreover from assms sv have "verr es = None"
    and "res = \<lparr>res_CG = cg es, res_State = state es, res_Outcome = ID (outcome es)\<rparr>"
    by (auto simp: Execute_def es_def initial_exec_def Let_def split: option.splits)
  ultimately show ?thesis using that sv by blast
qed

section \<open>The calls of the callback\<close>

text \<open>
  To speak about the moment a vertex is visited, the traversal is run with a callback that
  also records each call: the hash and the captured variables as they are when the call
  begins (\<open>logged\<close>). \<open>Execute_trace\<close> is that record for the traversal of \<^verbatim>\<open>Execute\<close>;
  the recording changes nothing else (\<open>BFS_loop_logged\<close>).
\<close>

definition logged ::
  "(string \<Rightarrow> 's \<Rightarrow> bool \<times> 's) \<Rightarrow> string \<Rightarrow> 's \<times> (string \<times> 's) list
     \<Rightarrow> bool \<times> ('s \<times> (string \<times> 's) list)" where
  "logged f k sl = (fst (f k (fst sl)), (snd (f k (fst sl)), snd sl @ [(k, fst sl)]))"

definition Execute_trace :: "'i Graph \<Rightarrow> string \<Rightarrow> 'i \<Rightarrow> (string \<times> 'i exec) list" where
  "Execute_trace g start input =
     snd (BFS (G g) start (logged (visit g start input))
            (\<lparr>cg = graph_New, state = Map.empty, outcome = zero_Node, verr = None\<rparr>, []))"

lemma BFS_loop_logged:
  "fst (BFS_loop g (logged f) queue visited (s, l)) = BFS_loop g f queue visited s"
proof (induction g f queue visited s arbitrary: l rule: BFS_loop.induct)
  case (1 g f visited s)
  then show ?case by simp
next
  case (2 g f currentHash queue visited s)
  show ?case
  proof (cases "fst (f currentHash s)")
    case True
    then show ?thesis by (simp add: logged_def)
  next
    case False
    from "2.IH" [OF False, of "l @ [(currentHash, s)]"] False
    show ?thesis by (simp add: logged_def)
  qed
qed

definition tinv :: "'i Graph \<Rightarrow> string \<Rightarrow> 'i \<Rightarrow> 'i exec \<Rightarrow> (string \<times> 'i exec) list \<Rightarrow> bool" where
  "tinv g start input s l \<longleftrightarrow>
     distinct (map fst l) \<and> set (map fst l) = dom (state s)
     \<and> (\<forall>i < length l.
           \<not> fst (visit g start input (fst (l ! i)) (snd (l ! i)))
           \<and> fst (l ! i) \<notin> dom (state (snd (l ! i)))
           \<and> state s (fst (l ! i))
               = state (snd (visit g start input (fst (l ! i)) (snd (l ! i)))) (fst (l ! i)))
     \<and> (\<forall>i < length l. fst (l ! i) = start
           \<or> (\<exists>j < i. (fst (l ! j), fst (l ! i)) \<in> set (edges (G g))))
     \<and> (\<forall>i < length l. \<forall>j < i. state (snd (l ! i)) (fst (l ! j)) = state s (fst (l ! j)))"

lemma tinv_init: "tinv g start input initial_exec []"
  by (simp add: tinv_def initial_exec_def)

lemma tinv_step:
  assumes inv: "einv g start (c # q) vis s" and t: "tinv g start input s l"
    and cont: "\<not> fst (visit g start input c s)"
  shows "tinv g start input (snd (visit g start input c s)) (l @ [(c, s)])"
proof -
  let ?s = "snd (visit g start input c s)"
  let ?l = "l @ [(c, s)]"
  from inv have b: "binv (G g) start (c # q) vis" and d: "dom (state s) = set vis - set (c # q)"
    by (simp_all add: einv_def)
  from t have dist: "distinct (map fst l)" and keys: "set (map fst l) = dom (state s)"
    and ent: "\<forall>i < length l.
           \<not> fst (visit g start input (fst (l ! i)) (snd (l ! i)))
           \<and> fst (l ! i) \<notin> dom (state (snd (l ! i)))
           \<and> state s (fst (l ! i))
               = state (snd (visit g start input (fst (l ! i)) (snd (l ! i)))) (fst (l ! i))"
    and ord: "\<forall>i < length l. fst (l ! i) = start
           \<or> (\<exists>j < i. (fst (l ! j), fst (l ! i)) \<in> set (edges (G g)))"
    and fin: "\<forall>i < length l. \<forall>j < i. state (snd (l ! i)) (fst (l ! j)) = state s (fst (l ! j))"
    by (simp_all add: tinv_def)
  have cnew: "c \<notin> dom (state s)" using d by simp
  have other: "\<And>k. k \<noteq> c \<Longrightarrow> state ?s k = state s k" by (rule visit_state_other)
  have key_old: "\<And>i. i < length l \<Longrightarrow> fst (l ! i) \<in> dom (state s) \<and> fst (l ! i) \<noteq> c"
  proof -
    fix i assume "i < length l"
    then have "fst (l ! i) \<in> set (map fst l)" by (metis length_map nth_map nth_mem)
    with keys cnew show "fst (l ! i) \<in> dom (state s) \<and> fst (l ! i) \<noteq> c" by auto
  qed
  have 1: "distinct (map fst ?l)" using dist keys cnew by simp
  have 2: "set (map fst ?l) = dom (state ?s)" using keys by (simp add: visit_state_dom)
  have 3: "\<forall>i < length ?l.
           \<not> fst (visit g start input (fst (?l ! i)) (snd (?l ! i)))
           \<and> fst (?l ! i) \<notin> dom (state (snd (?l ! i)))
           \<and> state ?s (fst (?l ! i))
               = state (snd (visit g start input (fst (?l ! i)) (snd (?l ! i)))) (fst (?l ! i))"
  proof (intro allI impI)
    fix i assume i: "i < length ?l"
    show "\<not> fst (visit g start input (fst (?l ! i)) (snd (?l ! i)))
           \<and> fst (?l ! i) \<notin> dom (state (snd (?l ! i)))
           \<and> state ?s (fst (?l ! i))
               = state (snd (visit g start input (fst (?l ! i)) (snd (?l ! i)))) (fst (?l ! i))"
    proof (cases "i < length l")
      case True
      have eq: "(l @ [(c, s)]) ! i = l ! i" using True by (simp add: nth_append)
      from key_old [OF True] have "fst (l ! i) \<noteq> c" by simp
      then have same: "state ?s (fst (l ! i)) = state s (fst (l ! i))" by (rule other)
      from ent True have "\<not> fst (visit g start input (fst (l ! i)) (snd (l ! i)))
           \<and> fst (l ! i) \<notin> dom (state (snd (l ! i)))
           \<and> state s (fst (l ! i))
               = state (snd (visit g start input (fst (l ! i)) (snd (l ! i)))) (fst (l ! i))"
        by blast
      then show ?thesis unfolding eq same by blast
    next
      case False
      with i have "i = length l" by simp
      with cont cnew show ?thesis by simp
    qed
  qed
  have 4: "\<forall>i < length ?l. fst (?l ! i) = start
           \<or> (\<exists>j < i. (fst (?l ! j), fst (?l ! i)) \<in> set (edges (G g)))"
  proof (intro allI impI)
    fix i assume i: "i < length ?l"
    show "fst (?l ! i) = start \<or> (\<exists>j < i. (fst (?l ! j), fst (?l ! i)) \<in> set (edges (G g)))"
    proof (cases "i < length l")
      case True
      with ord have "fst (l ! i) = start
           \<or> (\<exists>j < i. (fst (l ! j), fst (l ! i)) \<in> set (edges (G g)))" by simp
      then show ?thesis
      proof
        assume "fst (l ! i) = start" with True show ?thesis by (simp add: nth_append)
      next
        assume "\<exists>j < i. (fst (l ! j), fst (l ! i)) \<in> set (edges (G g))"
        then obtain j where "j < i" "(fst (l ! j), fst (l ! i)) \<in> set (edges (G g))" by blast
        with True have "j < i \<and> (fst (?l ! j), fst (?l ! i)) \<in> set (edges (G g))"
          by (simp add: nth_append)
        then show ?thesis by blast
      qed
    next
      case False
      with i have il: "i = length l" by simp
      show ?thesis
      proof (cases "c = start")
        case True
        with il show ?thesis by simp
      next
        case False
        from b have "c \<in> set vis" by (simp add: binv_def)
        with b False obtain u where u: "u \<in> set vis - set (c # q)" "(u, c) \<in> set (edges (G g))"
          unfolding binv_def by blast
        with d keys have "u \<in> set (map fst l)" by simp
        then obtain j where "j < length (map fst l)" "map fst l ! j = u"
          unfolding in_set_conv_nth by blast
        then have j: "j < length l" "fst (l ! j) = u" by simp_all
        with u il have "j < i \<and> (fst (?l ! j), fst (?l ! i)) \<in> set (edges (G g))"
          by (simp add: nth_append)
        then show ?thesis by blast
      qed
    qed
  qed
  have 5: "\<forall>i < length ?l. \<forall>j < i. state (snd (?l ! i)) (fst (?l ! j)) = state ?s (fst (?l ! j))"
  proof (intro allI impI)
    fix i j assume i: "i < length ?l" and j: "j < i"
    from i j have jl: "j < length l" by simp
    from key_old [OF jl] have "fst (l ! j) \<noteq> c" by simp
    then have same: "state ?s (fst (l ! j)) = state s (fst (l ! j))" by (rule other)
    show "state (snd (?l ! i)) (fst (?l ! j)) = state ?s (fst (?l ! j))"
    proof (cases "i < length l")
      case True
      with fin j same jl show ?thesis by (simp add: nth_append)
    next
      case False
      with i have "i = length l" by simp
      with same jl show ?thesis by (simp add: nth_append)
    qed
  qed
  from 1 2 3 4 5 show ?thesis unfolding tinv_def by blast
qed

lemma Execute_trace_inv:
  assumes "Execute g start input = Inr res"
  obtains vis es sv sn where
    "Vertex (G g) start = Some sv" "Body sv = Ref sn" "Type sn = Start"
    "einv g start [] vis es" "tinv g start input es (Execute_trace g start input)"
    "res = \<lparr>res_CG = cg es, res_State = state es, res_Outcome = ID (outcome es)\<rparr>"
proof -
  from assms obtain sv sn where sv: "Vertex (G g) start = Some sv" "Body sv = Ref sn"
      "Type sn = Start"
    by (auto simp: Execute_def split: option.splits Body.splits if_splits)
  define r where "r = BFS_loop (G g) (logged (visit g start input)) [start] [start]
                        (initial_exec :: 'a exec, [])"
  have fst_r: "fst r = BFS (G g) start (visit g start input) initial_exec"
    using sv by (simp add: r_def BFS_def BFS_loop_logged del: BFS_loop.simps)
  have snd_r: "snd r = Execute_trace g start input"
    using sv by (simp add: r_def BFS_def Execute_trace_def initial_exec_def del: BFS_loop.simps)
  have "verr (fst r) = None \<longrightarrow> (\<exists>vis. einv g start [] vis (fst r) \<and> tinv g start input (fst r) (snd r))"
    unfolding r_def
  proof (rule BFS_loop_rule
      [where I = "\<lambda>q vis sl. einv g start q vis (fst sl) \<and> tinv g start input (fst sl) (snd sl)"])
    show "einv g start [start] [start] (fst (initial_exec :: 'a exec, []))
          \<and> tinv g start input (fst (initial_exec :: 'a exec, [])) (snd (initial_exec :: 'a exec, []))"
      by (simp add: einv_init tinv_init)
  next
    fix c q vis and sl :: "'a exec \<times> (string \<times> 'a exec) list"
    assume I: "einv g start (c # q) vis (fst sl) \<and> tinv g start input (fst sl) (snd sl)"
      and c: "\<not> fst (logged (visit g start input) c sl)"
    from c have cont: "\<not> fst (visit g start input c (fst sl))" by (simp add: logged_def)
    from I cont einv_step [OF sv, of c q vis "fst sl" input] tinv_step [of g start c q vis "fst sl" input "snd sl"]
    show "einv g start (snd (enqueue (AdjacencyMap (G g) c) vis q))
            (fst (enqueue (AdjacencyMap (G g) c) vis q))
            (fst (snd (logged (visit g start input) c sl)))
          \<and> tinv g start input (fst (snd (logged (visit g start input) c sl)))
              (snd (snd (logged (visit g start input) c sl)))"
      by (simp add: logged_def)
  next
    fix c q vis and sl :: "'a exec \<times> (string \<times> 'a exec) list"
    assume "fst (logged (visit g start input) c sl)"
    then have "fst (visit g start input c (fst sl))" by (simp add: logged_def)
    then have "verr (snd (visit g start input c (fst sl))) \<noteq> None" by (rule visit_verr_stop)
    then show "verr (fst (snd (logged (visit g start input) c sl))) = None \<longrightarrow>
        (\<exists>vis. einv g start [] vis (fst (snd (logged (visit g start input) c sl)))
            \<and> tinv g start input (fst (snd (logged (visit g start input) c sl)))
                 (snd (snd (logged (visit g start input) c sl))))"
      by (auto simp: logged_def)
  next
    fix vis and sl :: "'a exec \<times> (string \<times> 'a exec) list"
    assume "einv g start [] vis (fst sl) \<and> tinv g start input (fst sl) (snd sl)"
    then show "verr (fst sl) = None \<longrightarrow>
        (\<exists>vis. einv g start [] vis (fst sl) \<and> tinv g start input (fst sl) (snd sl))"
      by blast
  qed
  moreover from assms sv have "verr (fst r) = None"
    and "res = \<lparr>res_CG = cg (fst r), res_State = state (fst r),
                res_Outcome = ID (outcome (fst r))\<rparr>"
    by (auto simp: Execute_def fst_r initial_exec_def Let_def split: option.splits)
  ultimately show ?thesis using that sv snd_r by metis
qed

lemma Execute_trace_same_run:
  "fst (BFS (G g) start (logged (visit g start input)) (s, l))
     = BFS (G g) start (visit g start input) s"
  by (simp add: BFS_def BFS_loop_logged del: BFS_loop.simps)

lemma Execute_visited_has_predecessor:
  assumes "Execute g start input = Inr res" and "res_State res k \<noteq> None" and "k \<noteq> start"
  shows "PredecessorMap (G g) k \<noteq> []"
proof -
  from assms(1) obtain vis es where inv: "einv g start [] vis es"
    and res: "res = \<lparr>res_CG = cg es, res_State = state es, res_Outcome = ID (outcome es)\<rparr>"
    by (rule Execute_einv)
  from inv have b: "binv (G g) start [] vis" and d: "dom (state es) = set vis"
    by (simp_all add: einv_def)
  from assms(2) res d have "k \<in> set vis" by auto
  with b assms(3) obtain u where "(u, k) \<in> set (edges (G g))" unfolding binv_def by auto
  then have "u \<in> set (PredecessorMap (G g) k)" by (simp add: set_PredecessorMap)
  then show ?thesis by auto
qed


section \<open>The example programs, compiled and executed\<close>

text \<open>
  The definitions are evaluated by the simplifier. \<open>trace_and\<close> and \<open>trace_nested\<close> give, for
  each call of the callback, the hash and the state map when the call begins.
\<close>

lemmas compile_defs =
  Compile_def compilePass_def Program_Pass_def s_Start_def s_Check_def s_Boolean_def s_Outcome_def
  StepBuilder_Outcome_def literal_env_def DefaultMaxDepth_def NewGraph_def graph_New_def
  assertNode_def visitSelf_def positioned_def addVertex_def linkParent_def linkPrevious_def
  compileBody_def AddVertex_def AddEdge_def Vertex_def Hash_def Itoa_def digits.simps digit_def
  CreatesCycle_def AdjacencyMap_def Wrap_def new_address_def
  ErrVertexAlreadyExists_def ErrVertexNotFound_def ErrEdgeAlreadyExists_def ErrEdgeCreatesCycle_def

lemmas execute_defs =
  Execute_def Execute_trace_def logged_def
  BFS_def visit_def visitBody_def startVisit_def mark_def stop_def completed_def
  PredecessorMap_def AdjacencyMap_def Vertex_def Hash_def Itoa_def digits.simps digit_def
  AddVertex_def AddEdge_def CreatesCycle_def graph_New_def zero_Node_def
  ErrVertexAlreadyExists_def ErrVertexNotFound_def ErrEdgeAlreadyExists_def ErrEdgeCreatesCycle_def

lemma Compile_simple_program: "Compile literal_env 0 simple_program = Inr simple_graph"
  by (simp add: simple_program_def simple_graph_def compile_defs)

lemma Compile_zero_priority_program:
  "Compile literal_env 0 zero_priority_program = Inr zero_priority_graph"
  by (simp add: zero_priority_program_def zero_priority_graph_def compile_defs)

lemma Compile_and_program: "Compile literal_env 0 and_program = Inr and_graph"
  by (simp add: and_program_def and_graph_def compile_defs)

lemma Compile_nested_program: "Compile literal_env 0 nested_program = Inr nested_graph"
  by (simp add: nested_program_def nested_graph_def compile_defs)

lemma Compile_dotted_program: "Compile literal_env 0 dotted_program = Inr dotted_graph"
  by (simp add: dotted_program_def dotted_graph_def compile_defs)

text \<open>
  An error of a nested step, wrapped by \<^verbatim>\<open>visitStatement\<close> with the child's location and by
  \<^verbatim>\<open>compilePass\<close> with the root step's: the outer \<^verbatim>\<open>NodeError\<close> has the root step's location.
\<close>

lemma Compile_reports_outer_location:
  "Compile literal_env 0 located_program
     = Inl (NodeError (Some (YamlNode ''$.workflow.default.steps[1]'' None))
              (NodeError (Some (YamlNode ''$.workflow.default.steps[1].and[0]'' None))
                 (ErrorString ''CEL type-check error: undeclared reference'')))"
  by (simp add: located_program_def compile_defs)


lemma Execute_simple: "Execute simple_graph ''request'' () = Inr simple_result"
  by (simp add: simple_graph_def simple_result_def execute_defs)

lemma Execute_zero_priority:
  "Execute zero_priority_graph ''request'' () = Inr zero_priority_result"
  by (simp add: zero_priority_graph_def zero_priority_result_def execute_defs)

lemma Execute_and: "Execute and_graph ''request'' () = Inr and_result"
  by (simp add: and_graph_def and_result_def execute_defs)

lemma Execute_nested: "Execute nested_graph ''request'' () = Inr nested_result"
  by (simp add: nested_graph_def nested_result_def execute_defs)

lemma trace_and:
  "map (\<lambda>e. (fst e, state (snd e))) (Execute_trace and_graph ''request'' ()) =
     [(''request'', Map.empty),
      (''default.1.0'', [''request'' \<mapsto> Complete]),
      (''default.1.1'', [''request'' \<mapsto> Complete, ''default.1.0'' \<mapsto> Complete]),
      (''default.1'', [''request'' \<mapsto> Complete, ''default.1.0'' \<mapsto> Complete,
                       ''default.1.1'' \<mapsto> Complete]),
      (''approved'', [''request'' \<mapsto> Complete, ''default.1.0'' \<mapsto> Complete,
                      ''default.1.1'' \<mapsto> Complete, ''default.1'' \<mapsto> Complete])]"
  by (simp add: and_graph_def execute_defs)

lemma trace_nested:
  "map (\<lambda>e. (fst e, state (snd e))) (Execute_trace nested_graph ''request'' ()) =
     [(''request'', Map.empty),
      (''default.1.0.0.0'', [''request'' \<mapsto> Complete]),
      (''default.1.1'', [''request'' \<mapsto> Complete, ''default.1.0.0.0'' \<mapsto> Complete]),
      (''default.1.0.0'', [''request'' \<mapsto> Complete, ''default.1.0.0.0'' \<mapsto> Complete,
                           ''default.1.1'' \<mapsto> Complete]),
      (''default.1'', [''request'' \<mapsto> Complete, ''default.1.0.0.0'' \<mapsto> Complete,
                       ''default.1.1'' \<mapsto> Complete, ''default.1.0.0'' \<mapsto> Complete]),
      (''default.1.0'', [''request'' \<mapsto> Complete, ''default.1.0.0.0'' \<mapsto> Complete,
                         ''default.1.1'' \<mapsto> Complete, ''default.1.0.0'' \<mapsto> Complete,
                         ''default.1'' \<mapsto> Inactive]),
      (''approved'', [''request'' \<mapsto> Complete, ''default.1.0.0.0'' \<mapsto> Complete,
                      ''default.1.1'' \<mapsto> Complete, ''default.1.0.0'' \<mapsto> Complete,
                      ''default.1'' \<mapsto> Inactive, ''default.1.0'' \<mapsto> Complete])]"
  by (simp add: nested_graph_def execute_defs)

lemma trace_entry:
  assumes "map (\<lambda>e. (fst e, state (snd e))) tr = xs" and "i < length xs"
  shows "i < length tr" and "fst (tr ! i) = fst (xs ! i)" and "state (snd (tr ! i)) = snd (xs ! i)"
    and "(fst (tr ! i), snd (tr ! i)) \<in> set tr"
proof -
  from assms show i: "i < length tr" by auto
  from assms i have "xs ! i = (fst (tr ! i), state (snd (tr ! i)))" by auto
  then show "fst (tr ! i) = fst (xs ! i)" and "state (snd (tr ! i)) = snd (xs ! i)" by simp_all
  from i show "(fst (tr ! i), snd (tr ! i)) \<in> set tr" by simp
qed

lemma trace_keys:
  assumes "map (\<lambda>e. (fst e, state (snd e))) tr = xs"
  shows "map fst tr = map fst xs"
proof -
  have "map fst (map (\<lambda>e. (fst e, state (snd e))) tr) = map fst tr" by (simp add: comp_def)
  with assms show ?thesis by simp
qed

section \<open>Properties of the step hash\<close>

text \<open>
  The hash of a reference is the id of its node, whatever the pass and the position; the
  hash of any other step is its pass, a dot, and its position joined by dots.
\<close>

lemma Hash_Ref: "Body s = Ref n \<Longrightarrow> Hash s = ID n"
  by (simp add: Hash_def)

lemma Hash_not_Ref:
  "(\<forall>n. Body s \<noteq> Ref n) \<Longrightarrow> Hash s = Pass s @ ''.'' @ Join (map Itoa (Position s)) ''.''"
  by (cases "Body s") (simp_all add: Hash_def)

lemma Hash_Ref_shared:
  "Hash (Step pos nm (Ref n) children node pass) = Hash (Step pos' nm' (Ref n) children' node' pass')"
  by (simp add: Hash_def)

text \<open>The value of a string of digits, to show that \<open>digits\<close> is injective.\<close>

definition digit_value :: "char \<Rightarrow> nat" where
  "digit_value c = length (takeWhile (\<lambda>x. x \<noteq> c) ''0123456789'')"

lemma digit_cases:
  assumes "d < (10::nat)"
  obtains "d = 0" | "d = 1" | "d = 2" | "d = 3" | "d = 4" | "d = 5" | "d = 6" | "d = 7"
    | "d = 8" | "d = 9"
proof -
  from assms have "d \<in> {0, 1, 2, 3, 4, 5, 6, 7, 8, 9}" by auto
  with that show thesis by auto
qed

lemma digit_value_digit: "d < 10 \<Longrightarrow> digit_value (digit d) = d"
  by (erule digit_cases) (simp_all add: digit_value_def digit_def)

lemma digit_plain: "d < 10 \<Longrightarrow> digit d \<noteq> CHR ''.'' \<and> digit d \<noteq> CHR ''-''"
  by (erule digit_cases) (simp_all add: digit_def)

lemma digits_value: "foldl (\<lambda>a c. 10 * a + digit_value c) 0 (digits n) = n"
proof (induction n rule: digits.induct)
  case (1 n)
  show ?case
  proof (cases "n < 10")
    case True
    then show ?thesis by (simp add: digits.simps [of n] digit_value_digit)
  next
    case False
    with 1 have "foldl (\<lambda>a c. 10 * a + digit_value c) 0 (digits (n div 10)) = n div 10" by simp
    with False show ?thesis by (simp add: digits.simps [of n] digit_value_digit)
  qed
qed

lemma digits_inj:
  assumes "digits n = digits m"
  shows "n = m"
proof -
  have "n = foldl (\<lambda>a c. 10 * a + digit_value c) 0 (digits n)" by (simp add: digits_value)
  also have "\<dots> = foldl (\<lambda>a c. 10 * a + digit_value c) 0 (digits m)" by (simp add: assms)
  also have "\<dots> = m" by (simp add: digits_value)
  finally show ?thesis .
qed

lemma digits_plain: "c \<in> set (digits n) \<Longrightarrow> c \<noteq> CHR ''.'' \<and> c \<noteq> CHR ''-''"
proof (induction n rule: digits.induct)
  case (1 n)
  show ?case
  proof (cases "n < 10")
    case True
    with "1.prems" have "c = digit n" by (simp add: digits.simps [of n])
    with True show ?thesis by (simp add: digit_plain)
  next
    case False
    with "1.prems" have "c = digit (n mod 10) \<or> c \<in> set (digits (n div 10))"
      by (simp add: digits.simps [of n])
    then show ?thesis
    proof
      assume "c \<in> set (digits (n div 10))"
      then show ?thesis using False by (rule "1.IH" [rotated])
    next
      assume "c = digit (n mod 10)"
      then show ?thesis by (simp add: digit_plain)
    qed
  qed
qed

lemma digits_nonempty: "digits n \<noteq> []"
  by (simp add: digits.simps [of n])


lemma hd_digits: "hd (digits n) \<noteq> CHR ''-''"
proof -
  have "hd (digits n) \<in> set (digits n)" by (simp add: digits_nonempty)
  then show ?thesis by (simp add: digits_plain)
qed

lemma Itoa_inj:
  assumes eq: "Itoa i = Itoa j"
  shows "i = j"
proof (cases "i < 0")
  case True
  show ?thesis
  proof (cases "j < 0")
    case True
    with \<open>i < 0\<close> eq have "digits (nat (- i)) = digits (nat (- j))" by (simp add: Itoa_def)
    then have "nat (- i) = nat (- j)" by (rule digits_inj)
    with True \<open>i < 0\<close> show ?thesis by simp
  next
    case False
    with \<open>i < 0\<close> eq have "CHR ''-'' # digits (nat (- i)) = digits (nat j)"
      by (simp add: Itoa_def)
    then have "hd (CHR ''-'' # digits (nat (- i))) = hd (digits (nat j))" by (rule arg_cong)
    then have "hd (digits (nat j)) = CHR ''-''" by simp
    then show ?thesis by (simp add: hd_digits)
  qed
next
  case False
  show ?thesis
  proof (cases "j < 0")
    case True
    with False eq have "digits (nat i) = CHR ''-'' # digits (nat (- j))"
      by (simp add: Itoa_def)
    then have "hd (digits (nat i)) = hd (CHR ''-'' # digits (nat (- j)))" by (rule arg_cong)
    then have "hd (digits (nat i)) = CHR ''-''" by simp
    then show ?thesis by (simp add: hd_digits)
  next
    case False
    with \<open>\<not> i < 0\<close> eq have "digits (nat i) = digits (nat j)" by (simp add: Itoa_def)
    then have "nat i = nat j" by (rule digits_inj)
    with False \<open>\<not> i < 0\<close> show ?thesis by simp
  qed
qed

lemma Itoa_no_dot: "CHR ''.'' \<notin> set (Itoa i)"
proof
  assume "CHR ''.'' \<in> set (Itoa i)"
  then have "CHR ''.'' \<in> set (digits (nat (- i))) \<or> CHR ''.'' \<in> set (digits (nat i))"
    by (simp add: Itoa_def split: if_splits)
  then show False
  proof
    assume "CHR ''.'' \<in> set (digits (nat (- i)))"
    from digits_plain [OF this] show False by simp
  next
    assume "CHR ''.'' \<in> set (digits (nat i))"
    from digits_plain [OF this] show False by simp
  qed
qed

lemma Itoa_nonempty: "Itoa i \<noteq> []"
  by (simp add: Itoa_def digits_nonempty)


lemma append_sep_eq:
  assumes "sep \<notin> set x" and "sep \<notin> set y"
    and "x @ r = y @ r'"
    and "r = [] \<or> hd r = sep" and "r' = [] \<or> hd r' = sep"
  shows "x = y \<and> r = r'"
  using assms
proof (induction x arbitrary: y)
  case Nil
  show ?case
  proof (cases y)
    case Nil
    with Nil.prems show ?thesis by simp
  next
    case (Cons b y')
    with Nil.prems have "r = b # y' @ r'" and "b \<noteq> sep" by auto
    with Nil.prems(4) show ?thesis by simp
  qed
next
  case (Cons a x)
  show ?case
  proof (cases y)
    case Nil
    with Cons.prems have "r' = a # x @ r" and "a \<noteq> sep" by auto
    with Cons.prems(5) show ?thesis by simp
  next
    case (Cons b y')
    with Cons.prems have "a = b" and "x @ r = y' @ r'" and "sep \<notin> set x" and "sep \<notin> set y'"
      by auto
    with Cons.IH [of y'] Cons.prems(4,5) Cons show ?thesis by simp
  qed
qed

lemma Join_Cons:
  "Join (x # xs) sep = x @ (if xs = [] then [] else sep @ Join xs sep)"
  by (cases xs) simp_all

lemma Join_Itoa_inj:
  "Join (map Itoa ps) ''.'' = Join (map Itoa qs) ''.'' \<Longrightarrow> ps = qs"
proof (induction ps arbitrary: qs)
  case Nil
  show ?case
  proof (cases qs)
    case Nil
    then show ?thesis by simp
  next
    case (Cons q qs')
    with Nil.prems have "Itoa q = []" by (simp add: Join_Cons)
    then show ?thesis by (simp add: Itoa_nonempty)
  qed
next
  case (Cons p ps)
  show ?case
  proof (cases qs)
    case Nil
    with Cons.prems have "Itoa p = []" by (simp add: Join_Cons)
    then show ?thesis by (simp add: Itoa_nonempty)
  next
    case (Cons q qs')
    define r where "r = (if ps = [] then [] else ''.'' @ Join (map Itoa ps) ''.'')"
    define r' where "r' = (if qs' = [] then [] else ''.'' @ Join (map Itoa qs') ''.'')"
    from Cons.prems Cons have eq: "Itoa p @ r = Itoa q @ r'"
      by (simp add: Join_Cons r_def r'_def)
    have hr: "r = [] \<or> hd r = CHR ''.''" by (simp add: r_def)
    have hr': "r' = [] \<or> hd r' = CHR ''.''" by (simp add: r'_def)
    have both: "Itoa p = Itoa q \<and> r = r'"
      by (rule append_sep_eq [OF Itoa_no_dot Itoa_no_dot eq hr hr'])
    then have pq: "p = q" by (simp add: Itoa_inj)
    from both have rr: "r = r'" by simp
    have "ps = qs'"
    proof (cases "ps = []")
      case True
      with rr have "r' = []" by (simp add: r_def)
      then have "qs' = []" by (simp add: r'_def split: if_splits)
      with True show ?thesis by simp
    next
      case False
      then have "r \<noteq> []" by (simp add: r_def)
      with rr have "r' \<noteq> []" by simp
      then have q: "qs' \<noteq> []" by (auto simp: r'_def)
      with False rr have "Join (map Itoa ps) ''.'' = Join (map Itoa qs') ''.''"
        by (simp add: r_def r'_def)
      then show ?thesis by (rule Cons.IH)
    qed
    with pq Cons show ?thesis by simp
  qed
qed

text \<open>
  Within one pass the hash of a step that is not a reference determines its position:
  \<^verbatim>\<open>Itoa\<close> is injective and its output is not empty and has no dot.
\<close>

theorem Hash_injective_within_pass:
  assumes "\<forall>n. Body s \<noteq> Ref n" and "\<forall>n. Body t \<noteq> Ref n"
    and "Pass s = Pass t" and "Hash s = Hash t"
  shows "Position s = Position t"
proof -
  from assms have "Join (map Itoa (Position s)) ''.'' = Join (map Itoa (Position t)) ''.''"
    by (simp add: Hash_not_Ref)
  then show ?thesis by (rule Join_Itoa_inj)
qed

theorem Hash_injective_within_pass_witness:
  "(\<forall>n. Body (Step [1, 0] [] (Check ''true'') [] None ''default'' :: unit Step) \<noteq> Ref n)
   \<and> (\<forall>n. Body (Step [1, 0] ''named'' (Check ''false'') [] None ''default'' :: unit Step) \<noteq> Ref n)
   \<and> Pass (Step [1, 0] [] (Check ''true'') [] None ''default'' :: unit Step)
       = Pass (Step [1, 0] ''named'' (Check ''false'') [] None ''default'' :: unit Step)
   \<and> Hash (Step [1, 0] [] (Check ''true'') [] None ''default'' :: unit Step)
       = Hash (Step [1, 0] ''named'' (Check ''false'') [] None ''default'' :: unit Step)
   \<and> Position (Step [1, 0] [] (Check ''true'') [] None ''default'' :: unit Step)
       = Position (Step [1, 0] ''named'' (Check ''false'') [] None ''default'' :: unit Step)"
proof -
  have a: "\<forall>n. Body (Step [1, 0] [] (Check ''true'') [] None ''default'' :: unit Step) \<noteq> Ref n"
    and b: "\<forall>n. Body (Step [1, 0] ''named'' (Check ''false'') [] None ''default'' :: unit Step)
               \<noteq> Ref n"
    and c: "Pass (Step [1, 0] [] (Check ''true'') [] None ''default'' :: unit Step)
       = Pass (Step [1, 0] ''named'' (Check ''false'') [] None ''default'' :: unit Step)"
    and d: "Hash (Step [1, 0] [] (Check ''true'') [] None ''default'' :: unit Step)
       = Hash (Step [1, 0] ''named'' (Check ''false'') [] None ''default'' :: unit Step)"
    by (simp_all add: Hash_def)
  from Hash_injective_within_pass [OF a b c d] a b c d show ?thesis by simp
qed

text \<open>
  C7. The claim: the hash is the node id for a reference and the pass, a dot and the
  dot-joined position for any other body (the three lemmas above), and consequently two
  paths between the same start and outcome share these two vertices while all their other
  steps remain distinct vertices. The code at two paths named \<^verbatim>\<open>a\<close> and \<^verbatim>\<open>a.2\<close>: the second
  child of the \<^verbatim>\<open>and\<close> at index 2 of \<^verbatim>\<open>a\<close> and the check at index 1 of \<^verbatim>\<open>a.2\<close> have the same
  hash. The compiler ignores the second \<^verbatim>\<open>AddVertex\<close>, so the graph has one vertex for the
  two steps (six vertices for seven distinct steps, in either order of the passes), and the
  expression table keeps for that vertex the program compiled last: the vertex of the check
  \<^verbatim>\<open>false\<close> evaluates \<^verbatim>\<open>true\<close>.
\<close>

theorem Hash_unifies_steps_of_dotted_passes:
  "Hash (Step [2, 1] [] (Check ''false'') [] None ''a'' :: unit Step) = ''a.2.1''
   \<and> Hash (Step [1] [] (Check ''true'') [] None ''a.2'' :: unit Step) = ''a.2.1''
   \<and> Compile literal_env 0 dotted_program = Inr dotted_graph
   \<and> map Hash (vertices (G dotted_graph))
       = [''request'', ''a.1'', ''a.2'', ''a.2.0'', ''a.2.1'', ''approved'']
   \<and> Vertex (G dotted_graph) ''a.2.1'' = Some (Step [2, 1] [] (Check ''false'') [] None ''a'')
   \<and> map_option (\<lambda>prg. prg ()) (programs dotted_graph ''a.2.1'') = Some (Inr (CelBool True))
   \<and> (case Compile literal_env 0 (rev dotted_program) of
         Inr g \<Rightarrow> map Hash (vertices (G g))
       | Inl err \<Rightarrow> [])
       = [''request'', ''a.2.1'', ''approved'', ''a.1'', ''a.2'', ''a.2.0'']"
proof -
  have 1: "Hash (Step [2, 1] [] (Check ''false'') [] None ''a'' :: unit Step) = ''a.2.1''"
    and 2: "Hash (Step [1] [] (Check ''true'') [] None ''a.2'' :: unit Step) = ''a.2.1''"
    by (simp_all add: Hash_def Itoa_def digits.simps digit_def)
  have 3: "map Hash (vertices (G dotted_graph))
       = [''request'', ''a.1'', ''a.2'', ''a.2.0'', ''a.2.1'', ''approved'']"
    and 4: "Vertex (G dotted_graph) ''a.2.1''
              = Some (Step [2, 1] [] (Check ''false'') [] None ''a'')"
    and 5: "map_option (\<lambda>prg. prg ()) (programs dotted_graph ''a.2.1'') = Some (Inr (CelBool True))"
    by (simp_all add: dotted_graph_def Vertex_def Hash_def Itoa_def digits.simps digit_def)
  have 6: "(case Compile literal_env 0 (rev dotted_program) of
         Inr g \<Rightarrow> map Hash (vertices (G g))
       | Inl err \<Rightarrow> [])
       = [''request'', ''a.2.1'', ''approved'', ''a.1'', ''a.2'', ''a.2.0'']"
    by (simp add: dotted_program_def compile_defs)
  from 1 2 Compile_dotted_program 3 4 5 6 show ?thesis by blast
qed


section \<open>Properties of the executor\<close>

lemma stop_fst [simp]: "fst (stop err es) = True"
  by (simp add: stop_def)

lemma Vertex_Hash: "Vertex g k = Some v \<Longrightarrow> Hash v = k"
  by (auto simp: Vertex_def dest: find_Some_iff [THEN iffD1])

text \<open>
  C3. In every execution that returns a result, for every call of the callback on a vertex
  \<open>k\<close> whose body is Boolean with op And (\<open>es\<close> are the captured variables when the call
  begins), the vertex ends Complete if and only if the number of predecessors that are
  Complete at that moment equals the number of predecessors and there is at least one
  predecessor; and such a vertex without predecessors has no state at all. (The source
  tests the equality only: a visited vertex with that body always has a predecessor, since
  the start is a node reference and every other visited vertex was reached along an edge.)
\<close>

theorem Execute_And_complete_iff:
  assumes ex: "Execute g start input = Inr res"
    and v: "Vertex (G g) k = Some v" and body: "Body v = Boolean And"
  shows "(\<forall>es. (k, es) \<in> set (Execute_trace g start input) \<longrightarrow>
            (res_State res k = Some Complete \<longleftrightarrow>
               length (completed (state es) (PredecessorMap (G g) k))
                 = length (PredecessorMap (G g) k)
               \<and> 0 < length (PredecessorMap (G g) k)))
       \<and> (PredecessorMap (G g) k = [] \<longrightarrow> res_State res k = None)"
proof -
  from ex obtain vis fin sv sn where sv: "Vertex (G g) start = Some sv" "Body sv = Ref sn"
    and t: "tinv g start input fin (Execute_trace g start input)"
    and res: "res = \<lparr>res_CG = cg fin, res_State = state fin, res_Outcome = ID (outcome fin)\<rparr>"
    by (rule Execute_trace_inv)
  let ?l = "Execute_trace g start input"
  from sv v body have ns: "k \<noteq> start" by auto
  have 1: "\<forall>es. (k, es) \<in> set ?l \<longrightarrow>
            (res_State res k = Some Complete \<longleftrightarrow>
               length (completed (state es) (PredecessorMap (G g) k))
                 = length (PredecessorMap (G g) k)
               \<and> 0 < length (PredecessorMap (G g) k))"
  proof (intro allI impI)
    fix es assume tr: "(k, es) \<in> set ?l"
    then obtain i where i: "i < length ?l" "?l ! i = (k, es)"
      unfolding in_set_conv_nth by blast
    from t i have cont: "\<not> fst (visit g start input k es)"
      and fresh: "k \<notin> dom (state es)"
      and final: "state fin k = state (snd (visit g start input k es)) k"
      and ord: "k = start \<or> (\<exists>j < i. (fst (?l ! j), k) \<in> set (edges (G g)))"
      unfolding tinv_def by (metis fst_conv snd_conv)+
    from ns ord obtain u where "(u, k) \<in> set (edges (G g))" by blast
    then have "u \<in> set (PredecessorMap (G g) k)" by (simp add: set_PredecessorMap)
    then have np: "0 < length (PredecessorMap (G g) k)"
      by (cases "PredecessorMap (G g) k") auto
    have same: "completed (state (startVisit start k es)) (PredecessorMap (G g) k)
                  = completed (state es) (PredecessorMap (G g) k)"
      unfolding completed_def using fresh ns
      by (intro filter_cong refl) (auto simp: startVisit_state)
    show "res_State res k = Some Complete \<longleftrightarrow>
               length (completed (state es) (PredecessorMap (G g) k))
                 = length (PredecessorMap (G g) k)
               \<and> 0 < length (PredecessorMap (G g) k)"
    proof (cases rule: visit_cases [of g start input k es])
      case (stopped err c)
      with cont show ?thesis by simp
    next
      case (body v' c)
      with v have "v' = v" by simp
      with body(2) visitBody_And_state(1) [OF \<open>Body v = Boolean And\<close>] final ns same res np
      show ?thesis by (simp add: startVisit_state)
    qed
  qed
  have 2: "PredecessorMap (G g) k = [] \<longrightarrow> res_State res k = None"
    using Execute_visited_has_predecessor [OF ex _ ns] by blast
  from 1 2 show ?thesis by blast
qed

theorem Execute_And_complete_iff_witness:
  "Execute and_graph ''request'' () = Inr and_result
   \<and> Execute_trace and_graph ''request'' () ! 3 \<in> set (Execute_trace and_graph ''request'' ())
   \<and> fst (Execute_trace and_graph ''request'' () ! 3) = ''default.1''
   \<and> Vertex (G and_graph) ''default.1''
        = Some (Step [1] [] (Boolean And)
                  [Step [] [] (Check ''true'') [] None ''default'',
                   Step [] [] (Check ''true'') [] None ''default''] None ''default'')
   \<and> length (completed (state (snd (Execute_trace and_graph ''request'' () ! 3)))
                (PredecessorMap (G and_graph) ''default.1'')) = 2
   \<and> length (PredecessorMap (G and_graph) ''default.1'') = 2
   \<and> res_State and_result ''default.1'' = Some Complete"
proof -
  let ?tr = "Execute_trace and_graph ''request'' ()"
  note e = trace_entry [OF trace_and, of 3, simplified]
  have v: "Vertex (G and_graph) ''default.1''
        = Some (Step [1] [] (Boolean And)
                  [Step [] [] (Check ''true'') [] None ''default'',
                   Step [] [] (Check ''true'') [] None ''default''] None ''default'')"
    by (simp add: and_graph_def Vertex_def Hash_def Itoa_def digits.simps digit_def)
  have p: "PredecessorMap (G and_graph) ''default.1'' = [''default.1.0'', ''default.1.1'']"
    by (simp add: and_graph_def PredecessorMap_def)
  have c: "length (completed (state (snd (?tr ! 3))) (PredecessorMap (G and_graph) ''default.1'')) = 2"
    by (simp add: p e(3) completed_def)
  have m: "(''default.1'', snd (?tr ! 3)) \<in> set ?tr" using e(4) e(2) by (metis prod.collapse)
  from Execute_And_complete_iff [OF Execute_and v] m c p
  have "res_State and_result ''default.1'' = Some Complete" by simp
  with Execute_and e(4) e(2) v c p show ?thesis by simp
qed

text \<open>
  C4. The claim: the traversal visits each reachable vertex only after every one of its
  predecessors has been visited, also when Boolean steps are nested. In the graph compiled
  from \<open>nested_program\<close> the \<^verbatim>\<open>and\<close> vertex \<^verbatim>\<open>default.1\<close> is two edges away from the start
  through its second child, and its other predecessor, the outer \<^verbatim>\<open>or\<close> vertex
  \<^verbatim>\<open>default.1.0\<close>, is three edges away: the \<^verbatim>\<open>and\<close> is visited fifth, when that predecessor has
  no state yet, and the predecessor sixth. In the result both predecessors are Complete and
  the \<^verbatim>\<open>and\<close> is Inactive.
\<close>

theorem nested_And_visited_before_predecessor:
  "Compile literal_env 0 nested_program = Inr nested_graph
   \<and> Execute nested_graph ''request'' () = Inr nested_result
   \<and> map fst (Execute_trace nested_graph ''request'' ())
       = [''request'', ''default.1.0.0.0'', ''default.1.1'', ''default.1.0.0'', ''default.1'',
          ''default.1.0'', ''approved'']
   \<and> PredecessorMap (G nested_graph) ''default.1'' = [''default.1.0'', ''default.1.1'']
   \<and> state (snd (Execute_trace nested_graph ''request'' () ! 4)) ''default.1.0'' = None
   \<and> res_State nested_result ''default.1.0'' = Some Complete
   \<and> res_State nested_result ''default.1.1'' = Some Complete
   \<and> res_State nested_result ''default.1'' = Some Inactive"
proof -
  have p: "PredecessorMap (G nested_graph) ''default.1'' = [''default.1.0'', ''default.1.1'']"
    by (simp add: nested_graph_def PredecessorMap_def)
  note e = trace_entry [OF trace_nested, of 4, simplified]
  from Compile_nested_program Execute_nested trace_keys [OF trace_nested] p e(3)
  show ?thesis by (simp add: nested_result_def)
qed

text \<open>
  C4, amended. In every execution that returns a result the callback is called once for
  every vertex that has a state, and every call but the one for the start comes after the
  call for at least one predecessor of its vertex, whose state is final by then. (The other
  predecessors may be visited later.)
\<close>

theorem Execute_visits_after_one_predecessor:
  assumes "Execute g start input = Inr res"
  shows "distinct (map fst (Execute_trace g start input))
       \<and> set (map fst (Execute_trace g start input)) = dom (res_State res)
       \<and> (\<forall>i < length (Execute_trace g start input).
            fst (Execute_trace g start input ! i) = start
            \<or> (\<exists>j < i. fst (Execute_trace g start input ! j)
                          \<in> set (PredecessorMap (G g) (fst (Execute_trace g start input ! i)))
                     \<and> state (snd (Execute_trace g start input ! i))
                          (fst (Execute_trace g start input ! j))
                        = res_State res (fst (Execute_trace g start input ! j))))"
proof -
  from assms obtain vis fin where
        t: "tinv g start input fin (Execute_trace g start input)"
    and res: "res = \<lparr>res_CG = cg fin, res_State = state fin, res_Outcome = ID (outcome fin)\<rparr>"
    by (rule Execute_trace_inv)
  let ?l = "Execute_trace g start input"
  from t have 1: "distinct (map fst ?l)" and 2: "set (map fst ?l) = dom (state fin)"
    and ord: "\<forall>i < length ?l. fst (?l ! i) = start
           \<or> (\<exists>j < i. (fst (?l ! j), fst (?l ! i)) \<in> set (edges (G g)))"
    and fin: "\<forall>i < length ?l. \<forall>j < i. state (snd (?l ! i)) (fst (?l ! j)) = state fin (fst (?l ! j))"
    by (simp_all add: tinv_def)
  have 3: "\<forall>i < length ?l. fst (?l ! i) = start
            \<or> (\<exists>j < i. fst (?l ! j) \<in> set (PredecessorMap (G g) (fst (?l ! i)))
                     \<and> state (snd (?l ! i)) (fst (?l ! j)) = res_State res (fst (?l ! j)))"
  proof (intro allI impI)
    fix i assume i: "i < length ?l"
    with ord have "fst (?l ! i) = start
           \<or> (\<exists>j < i. (fst (?l ! j), fst (?l ! i)) \<in> set (edges (G g)))" by blast
    then show "fst (?l ! i) = start
            \<or> (\<exists>j < i. fst (?l ! j) \<in> set (PredecessorMap (G g) (fst (?l ! i)))
                     \<and> state (snd (?l ! i)) (fst (?l ! j)) = res_State res (fst (?l ! j)))"
    proof
      assume "fst (?l ! i) = start" then show ?thesis by blast
    next
      assume "\<exists>j < i. (fst (?l ! j), fst (?l ! i)) \<in> set (edges (G g))"
      then obtain j where j: "j < i" "(fst (?l ! j), fst (?l ! i)) \<in> set (edges (G g))" by blast
      from fin i j(1) have "state (snd (?l ! i)) (fst (?l ! j)) = state fin (fst (?l ! j))"
        by blast
      with j res have "j < i \<and> fst (?l ! j) \<in> set (PredecessorMap (G g) (fst (?l ! i)))
                     \<and> state (snd (?l ! i)) (fst (?l ! j)) = res_State res (fst (?l ! j))"
        by (simp add: set_PredecessorMap)
      then show ?thesis by blast
    qed
  qed
  from 1 2 3 res show ?thesis by simp
qed

theorem Execute_visits_after_one_predecessor_witness:
  "Execute nested_graph ''request'' () = Inr nested_result
   \<and> distinct (map fst (Execute_trace nested_graph ''request'' ()))
   \<and> set (map fst (Execute_trace nested_graph ''request'' ())) = dom (res_State nested_result)
   \<and> 4 < length (Execute_trace nested_graph ''request'' ())
   \<and> fst (Execute_trace nested_graph ''request'' () ! 4) = ''default.1''
   \<and> (\<exists>j < 4. fst (Execute_trace nested_graph ''request'' () ! j)
                  \<in> set (PredecessorMap (G nested_graph) ''default.1'')
             \<and> state (snd (Execute_trace nested_graph ''request'' () ! 4))
                  (fst (Execute_trace nested_graph ''request'' () ! j))
                = res_State nested_result (fst (Execute_trace nested_graph ''request'' () ! j)))"
proof -
  note e = trace_entry [OF trace_nested, of 4, simplified]
  note t = Execute_visits_after_one_predecessor [OF Execute_nested]
  from t e(1) have "fst (Execute_trace nested_graph ''request'' () ! 4) = ''request''
     \<or> (\<exists>j < 4. fst (Execute_trace nested_graph ''request'' () ! j)
                  \<in> set (PredecessorMap (G nested_graph)
                           (fst (Execute_trace nested_graph ''request'' () ! 4)))
             \<and> state (snd (Execute_trace nested_graph ''request'' () ! 4))
                  (fst (Execute_trace nested_graph ''request'' () ! j))
                = res_State nested_result (fst (Execute_trace nested_graph ''request'' () ! j)))"
    by blast
  with e(2) have "\<exists>j < 4. fst (Execute_trace nested_graph ''request'' () ! j)
                  \<in> set (PredecessorMap (G nested_graph) ''default.1'')
             \<and> state (snd (Execute_trace nested_graph ''request'' () ! 4))
                  (fst (Execute_trace nested_graph ''request'' () ! j))
                = res_State nested_result (fst (Execute_trace nested_graph ''request'' () ! j))"
    by simp
  with t e(1) e(2) Execute_nested show ?thesis by simp
qed

text \<open>
  C5. In every execution that returns a result with a non-empty outcome, some vertex with a
  state is a reference to an Outcome node with that id and is Complete, and no Complete
  reference to an Outcome node has a higher priority.
\<close>

theorem Execute_outcome_is_highest_priority:
  assumes "Execute g start input = Inr res" and "res_Outcome res \<noteq> []"
  shows "\<exists>k v n. res_State res k = Some Complete \<and> Vertex (G g) k = Some v
            \<and> Body v = Ref n \<and> Type n = Outcome \<and> ID n = res_Outcome res
            \<and> (\<forall>k' v' n'. res_State res k' = Some Complete \<and> Vertex (G g) k' = Some v'
                    \<and> Body v' = Ref n' \<and> Type n' = Outcome
                  \<longrightarrow> Priority n' \<le> Priority n)"
proof -
  from assms(1) obtain vis es where inv: "einv g start [] vis es"
    and res: "res = \<lparr>res_CG = cg es, res_State = state es, res_Outcome = ID (outcome es)\<rparr>"
    by (rule Execute_einv)
  from inv have oc: "outcome es = zero_Node \<or>
          (0 < Priority (outcome es) \<and>
           (\<exists>k v. state es k = Some Complete \<and> Vertex (G g) k = Some v
                  \<and> Body v = Ref (outcome es) \<and> Type (outcome es) = Outcome))"
    and mx: "\<forall>k v n. state es k = Some Complete \<longrightarrow> Vertex (G g) k = Some v \<longrightarrow>
            Body v = Ref n \<longrightarrow> Type n = Outcome \<longrightarrow> Priority n \<le> Priority (outcome es)"
    by (simp_all add: einv_def)
  from assms(2) res have "outcome es \<noteq> zero_Node" by (auto simp: zero_Node_def)
  with oc obtain k v where kv: "state es k = Some Complete" "Vertex (G g) k = Some v"
    "Body v = Ref (outcome es)" "Type (outcome es) = Outcome" by blast
  have "\<forall>k' v' n'. res_State res k' = Some Complete \<and> Vertex (G g) k' = Some v'
                    \<and> Body v' = Ref n' \<and> Type n' = Outcome
                  \<longrightarrow> Priority n' \<le> Priority (outcome es)"
    using mx res by auto
  with kv res show ?thesis
    by (intro exI [of _ k] exI [of _ v] exI [of _ "outcome es"]) simp
qed

theorem Execute_outcome_is_highest_priority_witness:
  "Execute simple_graph ''request'' () = Inr simple_result
   \<and> res_Outcome simple_result \<noteq> []
   \<and> (\<exists>k v n. res_State simple_result k = Some Complete \<and> Vertex (G simple_graph) k = Some v
            \<and> Body v = Ref n \<and> Type n = Outcome \<and> ID n = ''approved''
            \<and> (\<forall>k' v' n'. res_State simple_result k' = Some Complete
                    \<and> Vertex (G simple_graph) k' = Some v'
                    \<and> Body v' = Ref n' \<and> Type n' = Outcome
                  \<longrightarrow> Priority n' \<le> Priority n))"
proof -
  have o: "res_Outcome simple_result \<noteq> []" "res_Outcome simple_result = ''approved''"
    by (simp_all add: simple_result_def)
  from Execute_outcome_is_highest_priority [OF Execute_simple o(1)] o Execute_simple
  show ?thesis by simp
qed

text \<open>
  C6. In every execution that returns a result the start is Complete, and every other
  vertex whose state is Active or Complete has a predecessor whose state is Complete.
\<close>

theorem Execute_active_complete_has_complete_predecessor:
  assumes "Execute g start input = Inr res"
  shows "res_State res start = Some Complete
       \<and> (\<forall>v. (res_State res v = Some Active \<or> res_State res v = Some Complete) \<and> v \<noteq> start
              \<longrightarrow> (\<exists>p \<in> set (PredecessorMap (G g) v). res_State res p = Some Complete))"
proof -
  from assms obtain vis es where inv: "einv g start [] vis es"
    and res: "res = \<lparr>res_CG = cg es, res_State = state es, res_Outcome = ID (outcome es)\<rparr>"
    by (rule Execute_einv)
  from inv have b: "binv (G g) start [] vis" and d: "dom (state es) = set vis"
    and st: "start \<in> dom (state es) \<longrightarrow> state es start = Some Complete"
    and ac: "\<forall>v. state es v = Some Active \<or> state es v = Some Complete \<longrightarrow>
            v = start \<or> (\<exists>p \<in> set (PredecessorMap (G g) v). state es p = Some Complete)"
    by (simp_all add: einv_def)
  from b d have "start \<in> dom (state es)" by (simp add: binv_def)
  with st ac res show ?thesis by auto
qed

theorem Execute_active_complete_witness:
  "Execute and_graph ''request'' () = Inr and_result
   \<and> res_State and_result ''request'' = Some Complete
   \<and> res_State and_result ''default.1'' = Some Complete
   \<and> (\<exists>p \<in> set (PredecessorMap (G and_graph) ''default.1'').
         res_State and_result p = Some Complete)"
proof -
  have s: "res_State and_result ''default.1'' = Some Complete"
    by (simp add: and_result_def)
  from Execute_active_complete_has_complete_predecessor [OF Execute_and] s Execute_and
  show ?thesis by auto
qed

text \<open>
  C9. In every execution that returns a result, a Complete reference to an Outcome node
  with a priority of 0 or less (and a non-empty id) is not the outcome of the result; and
  when every Complete reference to an Outcome node has such a priority, the outcome of the
  result is empty. The witness is the simple path with the outcome node of the test
  dialect, which was never validated and has priority 0: the outcome vertex is Complete and
  the outcome of the result is empty.
\<close>

theorem Execute_nonpositive_priority_never_selected:
  assumes "Execute g start input = Inr res"
  shows "(\<forall>k v n. res_State res k = Some Complete \<and> Vertex (G g) k = Some v
            \<and> Body v = Ref n \<and> Type n = Outcome \<and> Priority n \<le> 0 \<and> ID n \<noteq> []
          \<longrightarrow> res_Outcome res \<noteq> ID n)
       \<and> ((\<forall>k v n. res_State res k = Some Complete \<and> Vertex (G g) k = Some v
            \<and> Body v = Ref n \<and> Type n = Outcome \<longrightarrow> Priority n \<le> 0)
          \<longrightarrow> res_Outcome res = [])"
proof -
  from assms(1) obtain vis es where inv: "einv g start [] vis es"
    and res: "res = \<lparr>res_CG = cg es, res_State = state es, res_Outcome = ID (outcome es)\<rparr>"
    by (rule Execute_einv)
  from inv have oc: "outcome es = zero_Node \<or>
          (0 < Priority (outcome es) \<and>
           (\<exists>k v. state es k = Some Complete \<and> Vertex (G g) k = Some v
                  \<and> Body v = Ref (outcome es) \<and> Type (outcome es) = Outcome))"
    by (simp add: einv_def)
  have 1: "\<forall>k v n. res_State res k = Some Complete \<and> Vertex (G g) k = Some v
            \<and> Body v = Ref n \<and> Type n = Outcome \<and> Priority n \<le> 0 \<and> ID n \<noteq> []
          \<longrightarrow> res_Outcome res \<noteq> ID n"
  proof (intro allI impI notI)
    fix k v n
    assume a: "res_State res k = Some Complete \<and> Vertex (G g) k = Some v
            \<and> Body v = Ref n \<and> Type n = Outcome \<and> Priority n \<le> 0 \<and> ID n \<noteq> []"
      and eq: "res_Outcome res = ID n"
    from a eq res have "outcome es \<noteq> zero_Node" by (auto simp: zero_Node_def)
    with oc obtain k' v' where k': "0 < Priority (outcome es)" "Vertex (G g) k' = Some v'"
      "Body v' = Ref (outcome es)" by blast
    from k' have "Hash v' = k'" by (simp add: Vertex_Hash)
    with k'(3) have "k' = ID (outcome es)" by (simp add: Hash_def)
    moreover from a have "Hash v = k" using Vertex_Hash by blast
    with a have "k = ID n" by (simp add: Hash_def)
    ultimately have "k' = k" using eq res by simp
    with k' a have "outcome es = n" by simp
    with k'(1) a show False by simp
  qed
  have 2: "(\<forall>k v n. res_State res k = Some Complete \<and> Vertex (G g) k = Some v
            \<and> Body v = Ref n \<and> Type n = Outcome \<longrightarrow> Priority n \<le> 0)
          \<longrightarrow> res_Outcome res = []"
  proof
    assume all: "\<forall>k v n. res_State res k = Some Complete \<and> Vertex (G g) k = Some v
            \<and> Body v = Ref n \<and> Type n = Outcome \<longrightarrow> Priority n \<le> 0"
    show "res_Outcome res = []"
    proof (rule ccontr)
      assume "res_Outcome res \<noteq> []"
      with res have "outcome es \<noteq> zero_Node" by (auto simp: zero_Node_def)
      with oc obtain k v where "0 < Priority (outcome es)" "state es k = Some Complete"
        "Vertex (G g) k = Some v" "Body v = Ref (outcome es)" "Type (outcome es) = Outcome"
        by blast
      with all res show False by force
    qed
  qed
  from 1 2 show ?thesis by blast
qed

theorem Execute_nonpositive_priority_witness:
  "Execute zero_priority_graph ''request'' () = Inr zero_priority_result
   \<and> res_State zero_priority_result ''approved'' = Some Complete
   \<and> Vertex (G zero_priority_graph) ''approved''
       = Some (Step [2] [] (Ref \<lparr>Type = Outcome, ID = ''approved'', Name = [], Priority = 0\<rparr>)
                 [] None ''default'')
   \<and> res_Outcome zero_priority_result \<noteq> ''approved''
   \<and> res_Outcome zero_priority_result = []"
proof -
  have s: "res_State zero_priority_result ''approved'' = Some Complete"
    by (simp add: zero_priority_result_def)
  have v: "Vertex (G zero_priority_graph) ''approved''
       = Some (Step [2] [] (Ref \<lparr>Type = Outcome, ID = ''approved'', Name = [], Priority = 0\<rparr>)
                 [] None ''default'')"
    by (simp add: zero_priority_graph_def Vertex_def Hash_def Itoa_def digits.simps digit_def)
  from Execute_nonpositive_priority_never_selected [OF Execute_zero_priority] s v
  have "res_Outcome zero_priority_result \<noteq> ''approved''" by fastforce
  with Execute_zero_priority s v show ?thesis by (simp add: zero_priority_result_def)
qed

text \<open>
  C10. In every execution that returns a result, the keys of the state map are exactly the
  vertices that can be reached from the start along the edges of the graph.
\<close>

theorem Execute_state_domain:
  assumes "Execute g start input = Inr res"
  shows "dom (res_State res) = {v. (start, v) \<in> (set (edges (G g)))\<^sup>*}"
proof -
  from assms obtain vis es where inv: "einv g start [] vis es"
    and res: "res = \<lparr>res_CG = cg es, res_State = state es, res_Outcome = ID (outcome es)\<rparr>"
    by (rule Execute_einv)
  from inv have "binv (G g) start [] vis" and "dom (state es) = set vis"
    by (simp_all add: einv_def)
  with binv_final [of "G g" start vis] res show ?thesis by (simp add: reachable_def)
qed

theorem Execute_state_domain_witness:
  "Execute simple_graph ''request'' () = Inr simple_result
   \<and> dom (res_State simple_result) = {''request'', ''default.1'', ''approved''}
   \<and> {v. (''request'', v) \<in> (set (edges (G simple_graph)))\<^sup>*}
       = {''request'', ''default.1'', ''approved''}"
proof -
  have d: "dom (res_State simple_result) = {''request'', ''default.1'', ''approved''}"
    by (auto simp: simple_result_def split: if_splits)
  from Execute_state_domain [OF Execute_simple] d Execute_simple show ?thesis by simp
qed

end
